theory Spec2Isabelle
  imports Main
begin

section \<open>The model factory's parallel dispatch\<close>

text \<open>
  The notebook \<^verbatim>\<open>ai_accelerator_modelInsights_streamlit_v1.ipynb\<close> trains several
  projects in parallel:
  \<^verbatim>\<open>
  THREAD_POOL_WORKERS = 5

  def thread_function(project, start_time):
      print(f"Start training of project '{project.project_name}'...\n")
      project.analyze_and_model(
          target=TARGET, worker_count=-1, mode=AUTOPILOT_MODE.QUICK, max_wait=14400
      )
      project.wait_for_autopilot(check_interval=60)

      return datetime.datetime.now() - start_time

  with f.ThreadPoolExecutor(max_workers=THREAD_POOL_WORKERS) as executor:
      allFutures = {
          executor.submit(thread_function, pr, datetime.datetime.now()): pr
          for pr in project_list
      }

      for future in f.as_completed(allFutures):
          pr = allFutures[future]
          try:
              elapsed_time = future.result()
          except Exception as exc:
              print(
                  f"Training of project '{pr.project_name}' generated an exception: {exc}"
              )
          else:
              print(f"Training of project '{pr.project_name}' finished in {elapsed_time}")
  \<close>
  The worker count and the project list are parameters of the model. The code is
  concurrent: the main thread and up to \<open>max_workers\<close> pool threads interleave. The
  model is a transition system whose state holds the main thread's position, the
  futures, the dictionary \<open>allFutures\<close>, the console and a clock; a schedule (a list of
  actions) picks the next atomic step, and every statement below is about all schedules.
\<close>

subsection \<open>Data\<close>

text \<open>
  An exception, with its class name and its \<open>str()\<close>. \<open>Exn\<close> is an instance of (a
  subclass of) Python's \<open>Exception\<close>; \<open>BaseExn\<close> is an instance of \<open>BaseException\<close> that
  is not an instance of \<open>Exception\<close> (\<open>SystemExit\<close>, \<open>KeyboardInterrupt\<close>,
  \<open>GeneratorExit\<close> or a class derived from \<open>BaseException\<close> directly). The handler
  \<open>except Exception\<close> catches the first kind only.
\<close>

datatype exn =
    Exn (exn_class: string) (exn_str: string)
  | BaseExn (exn_class: string) (exn_str: string)

fun is_Exception :: "exn \<Rightarrow> bool" where
  "is_Exception (Exn c m) = True"
| "is_Exception (BaseExn c m) = False"

text \<open>
  A project (the job). The two remote calls are opaque; what each does when called is
  data of the job: it returns (\<open>None\<close>) or raises (\<open>Some e\<close>). \<open>analyze_and_model\<close> is
  the job's start operation, \<open>wait_for_autopilot\<close> its wait operation.
\<close>

record project =
  project_name :: string
  analyze_and_model :: "exn option"
  wait_for_autopilot :: "exn option"

text \<open>
  The three \<open>print\<close> statements, each with the values it interpolates, and a line that
  a remote call prints itself while it runs (the recorded output of the notebook shows
  the progress lines of \<open>wait_for_autopilot\<close>, such as
  \<^verbatim>\<open>In progress: 0, queued: 16 (waited: 170s)\<close>).
\<close>

datatype line =
    Start_line string
  | Exception_line string string
  | Finished_line string int
  | Remote_line string

text \<open>
  The life of a unit of work. \<open>PENDING\<close>: submitted, in the pool's queue. \<open>STARTING\<close>:
  a pool thread runs \<open>thread_function\<close> and is inside \<open>analyze_and_model\<close>. \<open>STARTED\<close>:
  \<open>analyze_and_model\<close> has returned and the thread is inside \<open>wait_for_autopilot\<close>.
  \<open>SUCCEEDED d\<close>: the future holds the returned timedelta \<open>d\<close>. \<open>FAILED e\<close>: the future
  holds the exception \<open>e\<close>.
\<close>

datatype unit_state = PENDING | STARTING | STARTED | SUCCEEDED int | FAILED exn

record future =
  fn_arg :: project
  start_time :: nat
  fut_state :: unit_state

text \<open>A log of what happened to each future (by its index), stamped with the clock.\<close>

datatype event =
    Submitted nat
  | Start_invoked nat
  | Wait_invoked nat
  | Wait_returned nat
  | Completed nat
  | Loop_entered

text \<open>
  The main thread: inside the dictionary comprehension with the projects still to submit,
  inside the \<open>for\<close> loop over \<open>as_completed\<close>, leaving the \<open>with\<close> block with an
  exception in flight, or past the \<open>with\<close> statement (normally, or with the exception).
\<close>

datatype main_state =
    Submitting "project list"
  | Collecting
  | Unwinding exn
  | Done "exn option"

record state =
  max_workers :: int
  clock :: nat
  main :: main_state
  futures :: "future list"
  allFutures :: "nat \<rightharpoonup> project"
  ready :: "nat list"
  collected :: "nat list"
  console :: "line list"
  trace :: "(nat \<times> event) list"

text \<open>
  \<open>ready\<close> is the queue of finished futures that \<open>as_completed\<close> has not yet yielded,
  \<open>collected\<close> the futures the loop has iterated over, in order.
\<close>

subsection \<open>Operations\<close>

text \<open>
  \<open>ThreadPoolExecutor(max_workers=W)\<close> raises \<open>ValueError\<close> for \<open>W <= 0\<close>; otherwise the
  \<open>with\<close> block is entered.
\<close>

definition dispatch :: "int \<Rightarrow> project list \<Rightarrow> state" where
  "dispatch W project_list =
     \<lparr>max_workers = W, clock = 0,
      main = (if W \<le> 0
              then Done (Some (Exn ''ValueError'' ''max_workers must be greater than 0''))
              else Submitting project_list),
      futures = [], allFutures = Map.empty, ready = [], collected = [],
      console = [], trace = []\<rparr>"

fun terminal :: "unit_state \<Rightarrow> bool" where
  "terminal (SUCCEEDED d) = True"
| "terminal (FAILED e) = True"
| "terminal u = False"

fun on_worker :: "unit_state \<Rightarrow> bool" where
  "on_worker STARTING = True"
| "on_worker STARTED = True"
| "on_worker u = False"

definition busy :: "state \<Rightarrow> nat" where
  "busy s = length (filter (\<lambda>fu. on_worker (fut_state fu)) (futures s))"

definition started :: "state \<Rightarrow> nat" where
  "started s = length (filter (\<lambda>fu. fut_state fu = STARTED) (futures s))"

definition all_terminal :: "state \<Rightarrow> bool" where
  "all_terminal s = list_all (\<lambda>fu. terminal (fut_state fu)) (futures s)"

text \<open>The pool's queue is first in, first out: the oldest pending unit is next.\<close>

definition next_pending :: "future list \<Rightarrow> nat option" where
  "next_pending fs = List.find (\<lambda>i. fut_state (fs ! i) = PENDING) [0..<length fs]"

definition finished_ids :: "state \<Rightarrow> nat list" where
  "finished_ids s =
     filter (\<lambda>i. terminal (fut_state (futures s ! i))) [0..<length (futures s)]"

definition set_state :: "nat \<Rightarrow> unit_state \<Rightarrow> future list \<Rightarrow> future list" where
  "set_state fid u fs = fs[fid := (fs ! fid)\<lparr>fut_state := u\<rparr>]"

text \<open>
  A future gets its result or its exception. While the loop over \<open>as_completed\<close> runs,
  the finished future is appended to the queue the loop reads.
\<close>

definition finish :: "nat \<Rightarrow> unit_state \<Rightarrow> state \<Rightarrow> state" where
  "finish fid u s =
     s\<lparr>futures := set_state fid u (futures s),
       ready := (if main s = Collecting then ready s @ [fid] else ready s),
       trace := trace s @ [(clock s, Completed fid)]\<rparr>"

text \<open>
  The atomic steps.
  \<^item> \<open>Tick\<close>: time passes.
  \<^item> \<open>Submit\<close>: one iteration of the comprehension: \<open>datetime.datetime.now()\<close> is read,
    the unit is queued, and the new future is mapped to its project.
  \<^item> \<open>Begin\<close>: a pool thread takes the oldest pending unit, if fewer than
    \<open>max_workers\<close> units are on a thread; \<open>thread_function\<close> prints and calls
    \<open>analyze_and_model\<close>.
  \<^item> \<open>Start_returns fid\<close>: \<open>analyze_and_model\<close> returns, and \<open>wait_for_autopilot\<close> is
    called, or it raises, and the exception is stored in the future.
  \<^item> \<open>Wait_returns fid\<close>: \<open>wait_for_autopilot\<close> returns, the clock is read and the
    difference is stored in the future, or it raises.
  \<^item> \<open>As_completed order\<close>: the comprehension is over and the loop calls
    \<open>as_completed\<close>, which first yields the futures that are already finished; it
    collects them in a set, so their order is any order.
  \<^item> \<open>Collect\<close>: one iteration of the loop, on the next finished future:
    \<open>future.result()\<close> returns the elapsed time, or raises the exception the future
    holds; the handler \<open>except Exception\<close> catches it if it is an instance of
    \<open>Exception\<close>, and otherwise it leaves the loop and the \<open>with\<close> block.
  \<^item> \<open>Raise e\<close>: an exception nothing in the block handles (a keyboard interrupt, say)
    is raised in the main thread inside the \<open>with\<close> block.
  \<^item> \<open>Exit_with\<close>: the \<open>with\<close> block is left: the executor's \<open>__exit__\<close> calls
    \<open>shutdown(wait=True)\<close>, which returns once every queued unit has run and the
    threads are joined.
  \<^item> \<open>Interrupt_join e\<close>: while \<open>__exit__\<close> waits in \<open>shutdown(wait=True)\<close> with an
    exception in flight, a further exception (a second keyboard interrupt) is raised in
    the main thread: the wait is abandoned and the \<open>with\<close> statement ends with \<open>e\<close>,
    whatever the units are doing; the pool threads go on running them.
  \<^item> \<open>Remote_print fid msg\<close>: the remote call that the unit \<open>fid\<close> is inside prints a
    line of its own.
\<close>

datatype action =
    Tick
  | Submit
  | Begin
  | Start_returns nat
  | Wait_returns nat
  | As_completed "nat list"
  | Collect
  | Raise exn
  | Exit_with
  | Interrupt_join exn
  | Remote_print nat string

fun step :: "action \<Rightarrow> state \<Rightarrow> state option" where
  "step Tick s = Some (s\<lparr>clock := clock s + 1\<rparr>)"
| "step Submit s =
     (case main s of
        Submitting (pr # rest) \<Rightarrow>
          Some (s\<lparr>main := Submitting rest,
                 futures := futures s @ [\<lparr>fn_arg = pr, start_time = clock s, fut_state = PENDING\<rparr>],
                 allFutures := (allFutures s)(length (futures s) \<mapsto> pr),
                 trace := trace s @ [(clock s, Submitted (length (futures s)))]\<rparr>)
      | _ \<Rightarrow> None)"
| "step Begin s =
     (if int (busy s) < max_workers s
      then (case next_pending (futures s) of
              None \<Rightarrow> None
            | Some fid \<Rightarrow>
                Some (s\<lparr>futures := set_state fid STARTING (futures s),
                       console := console s @ [Start_line (project_name (fn_arg (futures s ! fid)))],
                       trace := trace s @ [(clock s, Start_invoked fid)]\<rparr>))
      else None)"
| "step (Start_returns fid) s =
     (if fid < length (futures s) \<and> fut_state (futures s ! fid) = STARTING
      then (case analyze_and_model (fn_arg (futures s ! fid)) of
              Some e \<Rightarrow> Some (finish fid (FAILED e) s)
            | None \<Rightarrow>
                Some (s\<lparr>futures := set_state fid STARTED (futures s),
                       trace := trace s @ [(clock s, Wait_invoked fid)]\<rparr>))
      else None)"
| "step (Wait_returns fid) s =
     (if fid < length (futures s) \<and> fut_state (futures s ! fid) = STARTED
      then (case wait_for_autopilot (fn_arg (futures s ! fid)) of
              Some e \<Rightarrow> Some (finish fid (FAILED e) s)
            | None \<Rightarrow>
                Some (finish fid
                        (SUCCEEDED (int (clock s) - int (start_time (futures s ! fid))))
                        (s\<lparr>trace := trace s @ [(clock s, Wait_returned fid)]\<rparr>)))
      else None)"
| "step (As_completed order) s =
     (if main s = Submitting [] \<and> distinct order \<and> set order = set (finished_ids s)
      then Some (s\<lparr>main := Collecting, ready := order,
                  trace := trace s @ [(clock s, Loop_entered)]\<rparr>)
      else None)"
| "step Collect s =
     (if main s = Collecting
      then (case ready s of
              [] \<Rightarrow> None
            | fid # rest \<Rightarrow>
                (case allFutures s fid of
                   None \<Rightarrow> Some (s\<lparr>main := Unwinding (Exn ''KeyError'' [])\<rparr>)
                 | Some pr \<Rightarrow>
                     (if fid < length (futures s)
                      then (case fut_state (futures s ! fid) of
                              SUCCEEDED elapsed_time \<Rightarrow>
                                Some (s\<lparr>ready := rest, collected := collected s @ [fid],
                                       console := console s @
                                         [Finished_line (project_name pr) elapsed_time]\<rparr>)
                            | FAILED exc \<Rightarrow>
                                (if is_Exception exc
                                 then Some (s\<lparr>ready := rest,
                                         collected := collected s @ [fid],
                                         console := console s @
                                           [Exception_line (project_name pr) (exn_str exc)]\<rparr>)
                                 else Some (s\<lparr>main := Unwinding exc\<rparr>))
                            | _ \<Rightarrow> None)
                      else None)))
      else None)"
| "step (Raise e) s =
     (case main s of
        Submitting rest \<Rightarrow> Some (s\<lparr>main := Unwinding e\<rparr>)
      | Collecting \<Rightarrow> Some (s\<lparr>main := Unwinding e\<rparr>)
      | _ \<Rightarrow> None)"
| "step Exit_with s =
     (if all_terminal s
      then (case main s of
              Collecting \<Rightarrow>
                (if length (collected s) = length (futures s)
                 then Some (s\<lparr>main := Done None\<rparr>) else None)
            | Unwinding e \<Rightarrow> Some (s\<lparr>main := Done (Some e)\<rparr>)
            | _ \<Rightarrow> None)
      else None)"
| "step (Interrupt_join e) s =
     (case main s of
        Unwinding e0 \<Rightarrow> Some (s\<lparr>main := Done (Some e)\<rparr>)
      | _ \<Rightarrow> None)"
| "step (Remote_print fid msg) s =
     (if fid < length (futures s) \<and> on_worker (fut_state (futures s ! fid))
      then Some (s\<lparr>console := console s @ [Remote_line msg]\<rparr>)
      else None)"

fun run :: "action list \<Rightarrow> state \<Rightarrow> state option" where
  "run [] s = Some s"
| "run (a # as) s = (case step a s of None \<Rightarrow> None | Some s' \<Rightarrow> run as s')"

subsection \<open>Observations on a state\<close>

text \<open>
  \<open>thread_function\<close> calls \<open>analyze_and_model\<close> and then \<open>wait_for_autopilot\<close>; the
  first exception ends it. \<open>job_error\<close> is the exception a project's unit ends with, if
  any; the projects are \<open>ordinary\<close> when these exceptions are all instances of
  \<open>Exception\<close>; and \<open>consistent pr u\<close> says that the state \<open>u\<close> of a unit agrees with what the
  calls of its project \<open>pr\<close> do. \<open>wait_called pr u\<close> says whether a unit of \<open>pr\<close> in
  state \<open>u\<close> has called \<open>wait_for_autopilot\<close>.
\<close>

definition job_error :: "project \<Rightarrow> exn option" where
  "job_error pr =
     (case analyze_and_model pr of Some e \<Rightarrow> Some e | None \<Rightarrow> wait_for_autopilot pr)"

definition ordinary :: "project list \<Rightarrow> bool" where
  "ordinary jobs = (\<forall>pr\<in>set jobs. \<forall>e. job_error pr = Some e \<longrightarrow> is_Exception e)"

fun consistent :: "project \<Rightarrow> unit_state \<Rightarrow> bool" where
  "consistent pr PENDING = True"
| "consistent pr STARTING = True"
| "consistent pr STARTED = (analyze_and_model pr = None)"
| "consistent pr (SUCCEEDED d) = (job_error pr = None)"
| "consistent pr (FAILED e) = (job_error pr = Some e)"

fun wait_called :: "project \<Rightarrow> unit_state \<Rightarrow> bool" where
  "wait_called pr PENDING = False"
| "wait_called pr STARTING = False"
| "wait_called pr STARTED = True"
| "wait_called pr (SUCCEEDED d) = True"
| "wait_called pr (FAILED e) = (analyze_and_model pr = None)"

fun is_SUCCEEDED :: "unit_state \<Rightarrow> bool" where
  "is_SUCCEEDED (SUCCEEDED d) = True"
| "is_SUCCEEDED u = False"

text \<open>
  The events of the log without their times; the time of an event's first occurrence;
  \<open>only_after a b xs\<close>: in \<open>xs\<close> no \<open>b\<close> occurs before the first \<open>a\<close>.
\<close>

definition events :: "state \<Rightarrow> event list" where
  "events s = map snd (trace s)"

fun time_of :: "event \<Rightarrow> (nat \<times> event) list \<Rightarrow> nat option" where
  "time_of ev [] = None"
| "time_of ev ((t, e) # tr) = (if e = ev then Some t else time_of ev tr)"

definition only_after :: "'a \<Rightarrow> 'a \<Rightarrow> 'a list \<Rightarrow> bool" where
  "only_after a b xs = (b \<notin> set (takeWhile (\<lambda>x. x \<noteq> a) xs))"

text \<open>
  The units in the order in which pool threads began them, and in the order in which
  they completed; the part of the log before the loop over \<open>as_completed\<close> was entered
  and the part from there on; \<open>early s\<close> counts the units that had completed before the
  loop was entered, and \<open>yield_order s\<close> lists the futures in the order in which
  \<open>as_completed\<close> has yielded them or will yield them next.
\<close>

fun begun :: "event list \<Rightarrow> nat list" where
  "begun [] = []"
| "begun (Start_invoked fid # es) = fid # begun es"
| "begun (e # es) = begun es"

fun completions :: "event list \<Rightarrow> nat list" where
  "completions [] = []"
| "completions (Completed fid # es) = fid # completions es"
| "completions (e # es) = completions es"

definition before_loop :: "event list \<Rightarrow> event list" where
  "before_loop es = takeWhile (\<lambda>e. e \<noteq> Loop_entered) es"

definition after_loop :: "event list \<Rightarrow> event list" where
  "after_loop es = dropWhile (\<lambda>e. e \<noteq> Loop_entered) es"

definition early :: "state \<Rightarrow> nat" where
  "early s = length (completions (before_loop (events s)))"

definition yield_order :: "state \<Rightarrow> nat list" where
  "yield_order s = collected s @ ready s"

text \<open>
  The console: the lines of \<open>thread_function\<close>, the lines of the loop and the lines of
  the remote calls, and the line the loop prints for a project whose future is in a
  terminal state (none for an exception that is not an instance of \<open>Exception\<close>).
\<close>

fun is_start :: "line \<Rightarrow> bool" where
  "is_start (Start_line n) = True"
| "is_start l = False"

definition start_lines :: "line list \<Rightarrow> line list" where
  "start_lines ls = filter is_start ls"

fun is_summary :: "line \<Rightarrow> bool" where
  "is_summary (Exception_line n m) = True"
| "is_summary (Finished_line n d) = True"
| "is_summary l = False"

fun is_remote :: "line \<Rightarrow> bool" where
  "is_remote (Remote_line msg) = True"
| "is_remote l = False"

definition summaries :: "line list \<Rightarrow> line list" where
  "summaries ls = filter is_summary ls"


fun report :: "project \<Rightarrow> unit_state \<Rightarrow> line option" where
  "report pr (SUCCEEDED d) = Some (Finished_line (project_name pr) d)"
| "report pr (FAILED e) =
     (if is_Exception e then Some (Exception_line (project_name pr) (exn_str e)) else None)"
| "report pr u = None"

text \<open>
  The main thread has an exception in flight, or has left the \<open>with\<close> statement with
  one; the action that raises one from outside the jobs, the action that interrupts the
  wait of \<open>__exit__\<close>, and the actions that change nothing but the clock or the console.
\<close>

fun exceptional :: "main_state \<Rightarrow> bool" where
  "exceptional (Unwinding e) = True"
| "exceptional (Done (Some e)) = True"
| "exceptional m = False"

fun is_Raise :: "action \<Rightarrow> bool" where
  "is_Raise (Raise e) = True"
| "is_Raise a = False"

fun is_Interrupt_join :: "action \<Rightarrow> bool" where
  "is_Interrupt_join (Interrupt_join e) = True"
| "is_Interrupt_join a = False"

fun idle :: "action \<Rightarrow> bool" where
  "idle Tick = True"
| "idle (Remote_print fid msg) = True"
| "idle a = False"

subsection \<open>Invariants\<close>

text \<open>
  The futures are the units of the projects submitted so far, in order; the dictionary
  maps every future to its project; the futures the loop has iterated over or will
  iterate over next are finished ones, each once; a unit's state agrees with its
  project's calls; and at most \<open>max_workers\<close> units are on a pool thread.
\<close>

definition inv_jobs :: "project list \<Rightarrow> state \<Rightarrow> bool" where
  "inv_jobs jobs s =
     (take (length (futures s)) jobs = map fn_arg (futures s) \<and>
      (\<forall>rest. main s = Submitting rest \<longrightarrow> jobs = map fn_arg (futures s) @ rest) \<and>
      (main s = Collecting \<or> main s = Done None \<longrightarrow> length (futures s) = length jobs))"

definition inv_dict :: "state \<Rightarrow> bool" where
  "inv_dict s = (\<forall>fid<length (futures s). allFutures s fid = Some (fn_arg (futures s ! fid)))"

definition inv_queue :: "state \<Rightarrow> bool" where
  "inv_queue s =
     (distinct (collected s @ ready s) \<and>
      set (collected s @ ready s) \<subseteq> set (finished_ids s) \<and>
      (\<forall>rest. main s = Submitting rest \<longrightarrow> collected s = [] \<and> ready s = []) \<and>
      (main s = Collecting \<longrightarrow> set (finished_ids s) \<subseteq> set (collected s @ ready s)) \<and>
      (main s = Done None \<longrightarrow>
         all_terminal s \<and> length (collected s) = length (futures s)))"

definition inv_outcome :: "state \<Rightarrow> bool" where
  "inv_outcome s =
     (\<forall>fid<length (futures s).
        consistent (fn_arg (futures s ! fid)) (fut_state (futures s ! fid)))"

definition inv_busy :: "state \<Rightarrow> bool" where
  "inv_busy s = (busy s = 0 \<or> int (busy s) \<le> max_workers s)"

text \<open>
  The log records every submission, invocation and completion once, in the order of a
  unit's life, with times that the clock has reached; the console holds the start lines
  of the units begun and the reports of the futures iterated over; and the loop iterates
  first over the units that completed before it was entered, then over the others in
  their order of completion.
\<close>

definition inv_trace :: "state \<Rightarrow> bool" where
  "inv_trace s =
     (\<forall>fid.
        count_list (events s) (Submitted fid) = (if fid < length (futures s) then 1 else 0) \<and>
        count_list (events s) (Start_invoked fid) =
          (if fid < length (futures s) \<and> fut_state (futures s ! fid) \<noteq> PENDING then 1 else 0) \<and>
        count_list (events s) (Wait_invoked fid) =
          (if fid < length (futures s) \<and>
              wait_called (fn_arg (futures s ! fid)) (fut_state (futures s ! fid))
           then 1 else 0) \<and>
        count_list (events s) (Wait_returned fid) =
          (if fid < length (futures s) \<and> is_SUCCEEDED (fut_state (futures s ! fid))
           then 1 else 0) \<and>
        count_list (events s) (Completed fid) =
          (if fid < length (futures s) \<and> terminal (fut_state (futures s ! fid))
           then 1 else 0))"

definition inv_before :: "state \<Rightarrow> bool" where
  "inv_before s =
     (\<forall>fid.
        only_after (Submitted fid) (Start_invoked fid) (events s) \<and>
        only_after (Start_invoked fid) (Wait_invoked fid) (events s) \<and>
        only_after (Start_invoked fid) (Completed fid) (events s))"

definition timed :: "(nat \<times> event) list \<Rightarrow> nat \<Rightarrow> future \<Rightarrow> bool" where
  "timed tr fid fu =
     (time_of (Submitted fid) tr = Some (start_time fu) \<and>
      (fut_state fu \<noteq> PENDING \<longrightarrow>
         (\<exists>ts. time_of (Start_invoked fid) tr = Some ts \<and> start_time fu \<le> ts)) \<and>
      (\<forall>d. fut_state fu = SUCCEEDED d \<longrightarrow>
         (\<exists>ts t1. time_of (Start_invoked fid) tr = Some ts \<and>
                  time_of (Wait_returned fid) tr = Some t1 \<and> ts \<le> t1 \<and>
                  d = int t1 - int (start_time fu))))"

definition inv_time :: "state \<Rightarrow> bool" where
  "inv_time s =
     ((\<forall>t e. (t, e) \<in> set (trace s) \<longrightarrow> t \<le> clock s) \<and>
      (\<forall>fid<length (futures s). timed (trace s) fid (futures s ! fid)))"

definition inv_console :: "state \<Rightarrow> bool" where
  "inv_console s =
     (set (begun (events s)) \<subseteq> {..<length (futures s)} \<and>
      start_lines (console s) =
        map (\<lambda>fid. Start_line (project_name (fn_arg (futures s ! fid)))) (begun (events s)) \<and>
      map Some (summaries (console s)) =
        map (\<lambda>fid. report (fn_arg (futures s ! fid)) (fut_state (futures s ! fid)))
          (collected s))"

definition inv_order :: "state \<Rightarrow> bool" where
  "inv_order s =
     ((\<forall>rest. main s = Submitting rest \<longrightarrow> Loop_entered \<notin> set (events s)) \<and>
      (main s = Collecting \<or> main s = Done None \<longrightarrow>
         Loop_entered \<in> set (events s) \<and>
         early s \<le> length (yield_order s) \<and>
         set (take (early s) (yield_order s)) = set (completions (before_loop (events s))) \<and>
         drop (early s) (yield_order s) = completions (after_loop (events s))))"

definition invs :: "project list \<Rightarrow> state \<Rightarrow> bool" where
  "invs jobs s =
     (inv_jobs jobs s \<and> inv_dict s \<and> inv_queue s \<and> inv_outcome s \<and> inv_busy s \<and>
      inv_trace s \<and> inv_before s \<and> inv_time s \<and> inv_console s \<and> inv_order s)"

subsection \<open>A measure of the work left\<close>

text \<open>
  The number of steps other than the idle ones that a dispatch can still take is bounded
  by \<open>todo\<close>: each such step makes it smaller.
\<close>

fun unit_todo :: "unit_state \<Rightarrow> nat" where
  "unit_todo PENDING = 3"
| "unit_todo STARTING = 2"
| "unit_todo STARTED = 1"
| "unit_todo u = 0"

fun main_todo :: "main_state \<Rightarrow> nat" where
  "main_todo (Submitting rest) = 5 * length rest + 3"
| "main_todo Collecting = 2"
| "main_todo (Unwinding e) = 1"
| "main_todo (Done r) = 0"

definition work :: "future list \<Rightarrow> nat" where
  "work fs = sum_list (map (\<lambda>fu. unit_todo (fut_state fu)) fs)"

definition todo :: "state \<Rightarrow> nat" where
  "todo s = main_todo (main s) + work (futures s) + (length (futures s) - length (collected s))"

section \<open>Properties\<close>

subsection \<open>Steps and runs\<close>

lemma run_append:
  "run (as @ bs) s = (case run as s of None \<Rightarrow> None | Some s' \<Rightarrow> run bs s')"
  by (induction as arbitrary: s) (auto split: option.splits)

lemma stepE [consumes 1, case_names Tick Submit Begin Start_ok Start_fail Wait_ok Wait_fail
    Enter Collect_key Collect_ok Collect_exc Raise Exit_ok Exit_exn Collect_escape Interrupt
    Remote]:
  assumes "step a s = Some s'"
  obtains
    (Tick) "a = Tick" "s' = s\<lparr>clock := clock s + 1\<rparr>"
  | (Submit) pr rest where "a = Submit" "main s = Submitting (pr # rest)"
      "s' = s\<lparr>main := Submitting rest,
              futures := futures s @ [\<lparr>fn_arg = pr, start_time = clock s, fut_state = PENDING\<rparr>],
              allFutures := (allFutures s)(length (futures s) \<mapsto> pr),
              trace := trace s @ [(clock s, Submitted (length (futures s)))]\<rparr>"
  | (Begin) fid where "a = Begin" "int (busy s) < max_workers s"
      "next_pending (futures s) = Some fid"
      "s' = s\<lparr>futures := set_state fid STARTING (futures s),
              console := console s @ [Start_line (project_name (fn_arg (futures s ! fid)))],
              trace := trace s @ [(clock s, Start_invoked fid)]\<rparr>"
  | (Start_ok) fid where "a = Start_returns fid" "fid < length (futures s)"
      "fut_state (futures s ! fid) = STARTING"
      "analyze_and_model (fn_arg (futures s ! fid)) = None"
      "s' = s\<lparr>futures := set_state fid STARTED (futures s),
              trace := trace s @ [(clock s, Wait_invoked fid)]\<rparr>"
  | (Start_fail) fid e where "a = Start_returns fid" "fid < length (futures s)"
      "fut_state (futures s ! fid) = STARTING"
      "analyze_and_model (fn_arg (futures s ! fid)) = Some e"
      "s' = finish fid (FAILED e) s"
  | (Wait_ok) fid where "a = Wait_returns fid" "fid < length (futures s)"
      "fut_state (futures s ! fid) = STARTED"
      "wait_for_autopilot (fn_arg (futures s ! fid)) = None"
      "s' = finish fid (SUCCEEDED (int (clock s) - int (start_time (futures s ! fid))))
              (s\<lparr>trace := trace s @ [(clock s, Wait_returned fid)]\<rparr>)"
  | (Wait_fail) fid e where "a = Wait_returns fid" "fid < length (futures s)"
      "fut_state (futures s ! fid) = STARTED"
      "wait_for_autopilot (fn_arg (futures s ! fid)) = Some e"
      "s' = finish fid (FAILED e) s"
  | (Enter) order where "a = As_completed order" "main s = Submitting []" "distinct order"
      "set order = set (finished_ids s)"
      "s' = s\<lparr>main := Collecting, ready := order,
              trace := trace s @ [(clock s, Loop_entered)]\<rparr>"
  | (Collect_key) fid rest where "a = Collect" "main s = Collecting" "ready s = fid # rest"
      "allFutures s fid = None" "s' = s\<lparr>main := Unwinding (Exn ''KeyError'' [])\<rparr>"
  | (Collect_ok) fid rest pr d where "a = Collect" "main s = Collecting" "ready s = fid # rest"
      "allFutures s fid = Some pr" "fid < length (futures s)"
      "fut_state (futures s ! fid) = SUCCEEDED d"
      "s' = s\<lparr>ready := rest, collected := collected s @ [fid],
              console := console s @ [Finished_line (project_name pr) d]\<rparr>"
  | (Collect_exc) fid rest pr e where "a = Collect" "main s = Collecting" "ready s = fid # rest"
      "allFutures s fid = Some pr" "fid < length (futures s)"
      "fut_state (futures s ! fid) = FAILED e" "is_Exception e"
      "s' = s\<lparr>ready := rest, collected := collected s @ [fid],
              console := console s @ [Exception_line (project_name pr) (exn_str e)]\<rparr>"
  | (Raise) e where "a = Raise e" "main s = Collecting \<or> (\<exists>rest. main s = Submitting rest)"
      "s' = s\<lparr>main := Unwinding e\<rparr>"
  | (Exit_ok) "a = Exit_with" "all_terminal s" "main s = Collecting"
      "length (collected s) = length (futures s)" "s' = s\<lparr>main := Done None\<rparr>"
  | (Exit_exn) e where "a = Exit_with" "all_terminal s" "main s = Unwinding e"
      "s' = s\<lparr>main := Done (Some e)\<rparr>"
  | (Collect_escape) fid rest pr e where "a = Collect" "main s = Collecting"
      "ready s = fid # rest" "allFutures s fid = Some pr" "fid < length (futures s)"
      "fut_state (futures s ! fid) = FAILED e" "\<not> is_Exception e"
      "s' = s\<lparr>main := Unwinding e\<rparr>"
  | (Interrupt) e e0 where "a = Interrupt_join e" "main s = Unwinding e0"
      "s' = s\<lparr>main := Done (Some e)\<rparr>"
  | (Remote) fid msg where "a = Remote_print fid msg" "fid < length (futures s)"
      "on_worker (fut_state (futures s ! fid))"
      "s' = s\<lparr>console := console s @ [Remote_line msg]\<rparr>"
proof (cases a)
  case Tick with assms that show ?thesis by simp
next
  case Submit with assms that(2) show ?thesis
    by (auto split: main_state.splits list.splits)
next
  case Begin with assms that(3) show ?thesis
    by (auto split: if_splits option.splits)
next
  case (Start_returns fid) with assms that(4,5) show ?thesis
    by (auto split: if_splits option.splits)
next
  case (Wait_returns fid) with assms that(6,7) show ?thesis
    by (auto split: if_splits option.splits)
next
  case (As_completed order) with assms that(8) show ?thesis
    by (auto split: if_splits)
next
  case Collect with assms that(9,10,11,15) show ?thesis
    by (auto split: if_splits list.splits option.splits unit_state.splits)
next
  case (Raise e) with assms that(12) show ?thesis
    by (auto split: main_state.splits)
next
  case Exit_with with assms that(13,14) show ?thesis
    by (auto split: if_splits main_state.splits)
next
  case (Interrupt_join e) with assms that(16) show ?thesis
    by (auto split: main_state.splits)
next
  case (Remote_print fid msg) with assms that(17) show ?thesis
    by (auto split: if_splits)
qed

lemma run_invariant:
  assumes "run acts s0 = Some s" and "P s0"
    and "\<And>a s s'. P s \<Longrightarrow> step a s = Some s' \<Longrightarrow> P s'"
  shows "P s"
  using assms(1,2)
proof (induction acts arbitrary: s0)
  case Nil
  then show ?case by simp
next
  case (Cons a acts)
  then show ?case by (auto split: option.splits intro: assms(3))
qed

lemma length_set_state [simp]: "length (set_state fid u fs) = length fs"
  by (simp add: set_state_def)

lemma nth_set_state:
  "i < length fs \<Longrightarrow>
   set_state fid u fs ! i = (if i = fid then (fs ! fid)\<lparr>fut_state := u\<rparr> else fs ! i)"
  by (simp add: set_state_def)

lemma fn_arg_set_state [simp]:
  "i < length fs \<Longrightarrow> fn_arg (set_state fid u fs ! i) = fn_arg (fs ! i)"
  by (simp add: nth_set_state)

lemma start_time_set_state [simp]:
  "i < length fs \<Longrightarrow> start_time (set_state fid u fs ! i) = start_time (fs ! i)"
  by (simp add: nth_set_state)

lemma fut_state_set_state [simp]:
  "i < length fs \<Longrightarrow>
   fut_state (set_state fid u fs ! i) = (if i = fid then u else fut_state (fs ! i))"
  by (simp add: nth_set_state)

lemma map_fn_arg_set_state [simp]: "map fn_arg (set_state fid u fs) = map fn_arg fs"
  by (simp add: list_eq_iff_nth_eq)

lemma finish_simps [simp]:
  "futures (finish fid u s) = set_state fid u (futures s)"
  "main (finish fid u s) = main s"
  "max_workers (finish fid u s) = max_workers s"
  "clock (finish fid u s) = clock s"
  "allFutures (finish fid u s) = allFutures s"
  "collected (finish fid u s) = collected s"
  "console (finish fid u s) = console s"
  "ready (finish fid u s) = (if main s = Collecting then ready s @ [fid] else ready s)"
  "trace (finish fid u s) = trace s @ [(clock s, Completed fid)]"
  by (simp_all add: finish_def)

lemma set_finished_ids:
  "set (finished_ids s) = {i. i < length (futures s) \<and> terminal (fut_state (futures s ! i))}"
  by (auto simp: finished_ids_def)

lemma next_pending_Some:
  "next_pending fs = Some fid \<Longrightarrow> fid < length fs \<and> fut_state (fs ! fid) = PENDING"
  by (auto simp: next_pending_def find_Some_iff)

lemma all_terminal_iff:
  "all_terminal s = (\<forall>i<length (futures s). terminal (fut_state (futures s ! i)))"
  by (simp add: all_terminal_def list_all_length)

lemma step_max_workers: "step a s = Some s' \<Longrightarrow> max_workers s' = max_workers s"
  apply (erule stepE)
  apply simp_all
  done

lemma inv_jobs_step: "inv_jobs jobs s \<Longrightarrow> step a s = Some s' \<Longrightarrow> inv_jobs jobs s'"
  by (erule stepE) (auto simp: inv_jobs_def)

lemma inv_dict_step: "inv_dict s \<Longrightarrow> step a s = Some s' \<Longrightarrow> inv_dict s'"
  by (erule stepE) (auto simp: inv_dict_def nth_append)

lemma inv_outcome_step: "inv_outcome s \<Longrightarrow> step a s = Some s' \<Longrightarrow> inv_outcome s'"
  by (erule stepE) (auto simp: inv_outcome_def nth_append job_error_def)

lemma finished_ids_futures:
  "futures s' = futures s \<Longrightarrow> finished_ids s' = finished_ids s"
  by (simp add: finished_ids_def)

lemma all_terminal_futures:
  "futures s' = futures s \<Longrightarrow> all_terminal s' = all_terminal s"
  by (simp add: all_terminal_def)

lemma finished_ids_submit:
  "futures s' = futures s @ [\<lparr>fn_arg = pr, start_time = t, fut_state = PENDING\<rparr>] \<Longrightarrow>
   set (finished_ids s') = set (finished_ids s)"
  by (auto simp: set_finished_ids nth_append less_Suc_eq)

lemma finished_ids_set_state:
  "futures s' = set_state fid u (futures s) \<Longrightarrow> fid < length (futures s) \<Longrightarrow>
   set (finished_ids s') =
     (if terminal u then insert fid (set (finished_ids s)) else set (finished_ids s) - {fid})"
  by (auto simp: set_finished_ids split: if_splits)

lemma inv_queue_step:
  assumes "inv_dict s" and "inv_queue s" and "step a s = Some s'"
  shows "inv_queue s'"
proof -
  have keep: "inv_queue s'"
    if "futures s' = futures s" "collected s' = collected s" "ready s' = ready s"
      "main s' = main s \<or> (\<exists>e. main s' = Unwinding e) \<or> (\<exists>e. main s' = Done (Some e))"
  proof -
    note f = finished_ids_futures [OF that(1)] all_terminal_futures [OF that(1)]
    from that(4) show ?thesis
    proof (elim disjE exE)
      assume "main s' = main s"
      with f that(1,2,3) assms(2) show ?thesis by (simp add: inv_queue_def)
    next
      fix e assume "main s' = Unwinding e"
      with f that(2,3) assms(2) show ?thesis by (simp add: inv_queue_def)
    next
      fix e assume "main s' = Done (Some e)"
      with f that(2,3) assms(2) show ?thesis by (simp add: inv_queue_def)
    qed
  qed
  have unit: "inv_queue s'"
    if "futures s' = set_state fid u (futures s)" "fid < length (futures s)"
      "\<not> terminal (fut_state (futures s ! fid))" "main s' = main s" "collected s' = collected s"
      "ready s' = (if terminal u \<and> main s = Collecting then ready s @ [fid] else ready s)"
    for fid u
  proof -
    have n: "fid \<notin> set (finished_ids s)" using that(3) by (simp add: set_finished_ids)
    have f: "set (finished_ids s') =
        (if terminal u then insert fid (set (finished_ids s)) else set (finished_ids s))"
      using finished_ids_set_state [OF that(1,2)] n by simp
    have d: "main s \<noteq> Done None"
      using assms(2) that(2,3) by (auto simp: inv_queue_def all_terminal_iff)
    show ?thesis using f d n that(4,5,6) assms(2) by (auto simp: inv_queue_def)
  qed
  show ?thesis
    using assms(3)
  proof (cases rule: stepE)
    case Tick
    then show ?thesis by (intro keep) simp_all
  next
    case (Submit pr rest)
    then have "futures s' = futures s @ [\<lparr>fn_arg = pr, start_time = clock s, fut_state = PENDING\<rparr>]"
      by simp
    from finished_ids_submit [OF this] Submit assms(2)
    show ?thesis by (simp add: inv_queue_def)
  next
    case (Begin fid)
    with next_pending_Some [OF Begin(3)] show ?thesis
      by (intro unit [of fid STARTING]) simp_all
  next
    case (Start_ok fid)
    then show ?thesis by (intro unit [of fid STARTED]) simp_all
  next
    case (Start_fail fid e)
    then show ?thesis by (intro unit [of fid "FAILED e"]) simp_all
  next
    case (Wait_ok fid)
    then show ?thesis
      by (intro unit [of fid "SUCCEEDED (int (clock s) - int (start_time (futures s ! fid)))"])
         simp_all
  next
    case (Wait_fail fid e)
    then show ?thesis by (intro unit [of fid "FAILED e"]) simp_all
  next
    case (Enter order)
    then have "futures s' = futures s" by simp
    from finished_ids_futures [OF this] all_terminal_futures [OF this] Enter assms(2)
    show ?thesis by (simp add: inv_queue_def)
  next
    case (Collect_key fid rest)
    then show ?thesis by (intro keep) simp_all
  next
    case (Collect_ok fid rest pr d)
    then have "futures s' = futures s" by simp
    from finished_ids_futures [OF this] all_terminal_futures [OF this] Collect_ok assms(2)
    show ?thesis by (auto simp: inv_queue_def)
  next
    case (Collect_exc fid rest pr e)
    then have "futures s' = futures s" by simp
    from finished_ids_futures [OF this] all_terminal_futures [OF this] Collect_exc assms(2)
    show ?thesis by (auto simp: inv_queue_def)
  next
    case (Raise e)
    then show ?thesis by (intro keep) auto
  next
    case Exit_ok
    then have "futures s' = futures s" by simp
    from finished_ids_futures [OF this] all_terminal_futures [OF this] Exit_ok assms(2)
    show ?thesis by (simp add: inv_queue_def)
  next
    case (Exit_exn e)
    then show ?thesis by (intro keep) simp_all
  next
    case (Collect_escape fid rest pr e)
    then show ?thesis by (intro keep) simp_all
  next
    case (Interrupt e e0)
    then show ?thesis by (intro keep) simp_all
  next
    case (Remote fid msg)
    then show ?thesis by (intro keep) simp_all
  qed
qed

lemma length_filter_update:
  "i < length xs \<Longrightarrow>
   length (filter P (xs[i := y])) + (if P (xs ! i) then 1 else 0) =
   length (filter P xs) + (if P y then 1 else 0)"
proof (induction xs arbitrary: i)
  case Nil
  then show ?case by simp
next
  case (Cons x xs)
  show ?case
  proof (cases i)
    case 0
    then show ?thesis by simp
  next
    case (Suc j)
    with Cons.prems have "j < length xs" by simp
    from Cons.IH [OF this] Suc show ?thesis by simp
  qed
qed

lemma busy_set_state:
  assumes "futures s' = set_state fid u (futures s)" and "fid < length (futures s)"
  shows "busy s' + (if on_worker (fut_state (futures s ! fid)) then 1 else 0) =
         busy s + (if on_worker u then 1 else 0)"
  using length_filter_update [OF assms(2), of "\<lambda>fu. on_worker (fut_state fu)"
      "(futures s ! fid)\<lparr>fut_state := u\<rparr>"] assms(1)
  by (simp add: busy_def set_state_def)

lemma busy_futures: "futures s' = futures s \<Longrightarrow> busy s' = busy s"
  by (simp add: busy_def)

text \<open>How a step changes the number of units on a pool thread.\<close>

lemma step_busy:
  assumes "step a s = Some s'"
  shows "busy s' = busy s
       \<or> (a = Begin \<and> busy s' = busy s + 1 \<and> int (busy s) < max_workers s)
       \<or> (\<exists>fid. (a = Start_returns fid \<or> a = Wait_returns fid) \<and> busy s' + 1 = busy s \<and>
             fid < length (futures s') \<and> terminal (fut_state (futures s' ! fid)))"
  using assms
proof (cases rule: stepE)
  case (Submit pr rest)
  then show ?thesis by (simp add: busy_def)
next
  case (Begin fid)
  then have "futures s' = set_state fid STARTING (futures s)" "fid < length (futures s)"
    "fut_state (futures s ! fid) = PENDING"
    by (simp_all add: next_pending_Some)
  from busy_set_state [OF this(1,2)] this(3) Begin(1,2) show ?thesis by simp
next
  case (Start_ok fid)
  then have "futures s' = set_state fid STARTED (futures s)" by simp
  from busy_set_state [OF this Start_ok(2)] Start_ok(3) show ?thesis by simp
next
  case (Start_fail fid e)
  then have "futures s' = set_state fid (FAILED e) (futures s)" by simp
  from busy_set_state [OF this Start_fail(2)] Start_fail(1,2,3,5) show ?thesis by simp
next
  case (Wait_ok fid)
  then have "futures s' =
      set_state fid (SUCCEEDED (int (clock s) - int (start_time (futures s ! fid)))) (futures s)"
    by simp
  from busy_set_state [OF this Wait_ok(2)] Wait_ok(1,2,3,5) show ?thesis by simp
next
  case (Wait_fail fid e)
  then have "futures s' = set_state fid (FAILED e) (futures s)" by simp
  from busy_set_state [OF this Wait_fail(2)] Wait_fail(1,2,3,5) show ?thesis by simp
qed (auto simp: busy_def)

lemma inv_busy_step: "inv_busy s \<Longrightarrow> step a s = Some s' \<Longrightarrow> inv_busy s'"
  using step_busy [of a s s'] step_max_workers [of a s s'] by (auto simp: inv_busy_def)

lemma started_le_busy: "started s \<le> busy s"
proof -
  have "length (filter (\<lambda>fu. fut_state fu = STARTED) xs)
      \<le> length (filter (\<lambda>fu. on_worker (fut_state fu)) xs)" for xs
    by (induction xs) auto
  then show ?thesis unfolding started_def busy_def .
qed

lemma run_max_workers: "run acts s0 = Some s \<Longrightarrow> max_workers s = max_workers s0"
  by (rule run_invariant [where P = "\<lambda>s. max_workers s = max_workers s0"])
     (simp_all add: step_max_workers)

lemma run_inv_busy: "run acts s0 = Some s \<Longrightarrow> inv_busy s0 \<Longrightarrow> inv_busy s"
  by (rule run_invariant [where P = inv_busy]) (simp_all add: inv_busy_step)

lemma only_after_append:
  assumes "only_after a b xs" and "a \<in> set xs \<or> b \<notin> set ys"
  shows "only_after a b (xs @ ys)"
proof (cases "a \<in> set xs")
  case True
  then have "takeWhile (\<lambda>x. x \<noteq> a) (xs @ ys) = takeWhile (\<lambda>x. x \<noteq> a) xs"
    by (simp add: takeWhile_append1)
  with assms(1) show ?thesis by (simp add: only_after_def)
next
  case False
  then have all: "\<And>x. x \<in> set xs \<Longrightarrow> x \<noteq> a" by auto
  then have "takeWhile (\<lambda>x. x \<noteq> a) xs = xs"
    by (simp add: takeWhile_eq_all_conv)
  with assms(1) have "b \<notin> set xs" by (simp add: only_after_def)
  moreover have "takeWhile (\<lambda>x. x \<noteq> a) (xs @ ys) = xs @ takeWhile (\<lambda>x. x \<noteq> a) ys"
    using all by (simp add: takeWhile_append2)
  moreover have "b \<notin> set (takeWhile (\<lambda>x. x \<noteq> a) ys)"
    using assms(2) False by (auto dest: set_takeWhileD)
  ultimately show ?thesis by (auto simp: only_after_def)
qed

lemma only_after_Nil [simp]: "only_after a b []"
  by (simp add: only_after_def)

lemma events_update [simp]:
  "events (trace_update f s) = map snd (f (trace s))"
  "events (max_workers_update g1 s) = events s"
  "events (clock_update g2 s) = events s"
  "events (main_update g3 s) = events s"
  "events (futures_update g4 s) = events s"
  "events (allFutures_update g5 s) = events s"
  "events (ready_update g6 s) = events s"
  "events (collected_update g7 s) = events s"
  "events (console_update g8 s) = events s"
  by (simp_all add: events_def)

lemma events_finish [simp]: "events (finish fid u s) = events s @ [Completed fid]"
  by (simp add: finish_def events_def)

lemma events_fold [simp]: "map snd (trace s) = events s"
  by (simp add: events_def)

lemma count_one_in: "count_list xs x = 1 \<Longrightarrow> x \<in> set xs"
  using count_list_0_iff [of xs x] by auto

lemma count_zero_notin: "count_list xs x = 0 \<Longrightarrow> x \<notin> set xs"
  by (simp add: count_list_0_iff)

lemma Submitted_in_events:
  "inv_trace s \<Longrightarrow> fid < length (futures s) \<Longrightarrow> Submitted fid \<in> set (events s)"
  by (rule count_one_in) (simp add: inv_trace_def)

lemma Start_invoked_in_events:
  "inv_trace s \<Longrightarrow> fid < length (futures s) \<Longrightarrow> fut_state (futures s ! fid) \<noteq> PENDING \<Longrightarrow>
   Start_invoked fid \<in> set (events s)"
  by (rule count_one_in) (simp add: inv_trace_def)

lemma inv_trace_step:
  assumes "inv_outcome s" and "inv_trace s" and "step a s = Some s'"
  shows "inv_trace s'"
  using assms(3)
proof (cases rule: stepE)
  case Tick
  with assms(2) show ?thesis by (simp add: inv_trace_def)
next
  case (Submit pr rest)
  with assms(2) show ?thesis by (auto simp: inv_trace_def nth_append)
next
  case (Begin fid)
  with assms(2) next_pending_Some [OF Begin(3)] show ?thesis
    by (auto simp: inv_trace_def)
next
  case (Start_ok fid)
  with assms(2) show ?thesis by (auto simp: inv_trace_def)
next
  case (Start_fail fid e)
  with assms(2) show ?thesis by (auto simp: inv_trace_def)
next
  case (Wait_ok fid)
  with assms(2) show ?thesis by (auto simp: inv_trace_def)
next
  case (Wait_fail fid e)
  moreover have "analyze_and_model (fn_arg (futures s ! fid)) = None"
    using assms(1) Wait_fail(2,3) by (auto simp: inv_outcome_def)
  ultimately show ?thesis using assms(2) by (auto simp: inv_trace_def)
next
  case (Enter order)
  with assms(2) show ?thesis by (simp add: inv_trace_def)
next
  case (Collect_key fid rest)
  with assms(2) show ?thesis by (simp add: inv_trace_def)
next
  case (Collect_ok fid rest pr d)
  with assms(2) show ?thesis by (simp add: inv_trace_def)
next
  case (Collect_exc fid rest pr e)
  with assms(2) show ?thesis by (simp add: inv_trace_def)
next
  case (Raise e)
  with assms(2) show ?thesis by (simp add: inv_trace_def)
next
  case Exit_ok
  with assms(2) show ?thesis by (simp add: inv_trace_def)
next
  case (Exit_exn e)
  with assms(2) show ?thesis by (simp add: inv_trace_def)
qed (use assms(2) in \<open>simp_all add: inv_trace_def\<close>)

lemma inv_before_step:
  assumes "inv_trace s" and "inv_before s" and "step a s = Some s'"
  shows "inv_before s'"
  using assms(3)
proof (cases rule: stepE)
  case (Submit pr rest)
  with assms(2) show ?thesis by (auto simp: inv_before_def intro!: only_after_append)
next
  case (Begin fid)
  have "Submitted fid \<in> set (events s)"
    by (rule Submitted_in_events [OF assms(1)]) (simp add: next_pending_Some [OF Begin(3)])
  with Begin assms(2) show ?thesis by (auto simp: inv_before_def intro!: only_after_append)
next
  case (Start_ok fid)
  have "Start_invoked fid \<in> set (events s)"
    by (rule Start_invoked_in_events [OF assms(1)]) (simp_all add: Start_ok(2,3))
  with Start_ok assms(2) show ?thesis by (auto simp: inv_before_def intro!: only_after_append)
next
  case (Start_fail fid e)
  have "Start_invoked fid \<in> set (events s)"
    by (rule Start_invoked_in_events [OF assms(1)]) (simp_all add: Start_fail(2,3))
  with Start_fail assms(2) show ?thesis by (auto simp: inv_before_def intro!: only_after_append)
next
  case (Wait_ok fid)
  have "Start_invoked fid \<in> set (events s)"
    by (rule Start_invoked_in_events [OF assms(1)]) (simp_all add: Wait_ok(2,3))
  with Wait_ok assms(2) show ?thesis by (auto simp: inv_before_def intro!: only_after_append)
next
  case (Wait_fail fid e)
  have "Start_invoked fid \<in> set (events s)"
    by (rule Start_invoked_in_events [OF assms(1)]) (simp_all add: Wait_fail(2,3))
  with Wait_fail assms(2) show ?thesis by (auto simp: inv_before_def intro!: only_after_append)
next
  case (Enter order)
  with assms(2) show ?thesis by (auto simp: inv_before_def intro!: only_after_append)
qed (use assms(2) in \<open>auto simp: inv_before_def\<close>)

lemma time_of_append_Some [simp]:
  "time_of ev tr = Some t \<Longrightarrow> time_of ev (tr @ tr') = Some t"
  by (induction tr) (auto split: if_splits)

lemma time_of_append_None [simp]:
  "time_of ev tr = None \<Longrightarrow> time_of ev (tr @ tr') = time_of ev tr'"
  by (induction tr) (auto split: if_splits)

lemma time_of_Some_in: "time_of ev tr = Some t \<Longrightarrow> (t, ev) \<in> set tr"
  by (induction tr) (auto split: if_splits)

lemma time_of_None: "ev \<notin> set (map snd tr) \<Longrightarrow> time_of ev tr = None"
  by (induction tr) auto

lemma time_of_fresh: "count_list (events s) ev = 0 \<Longrightarrow> time_of ev (trace s) = None"
  by (rule time_of_None) (simp add: count_list_0_iff)

lemma timed_append: "timed tr fid fu \<Longrightarrow> timed (tr @ tr') fid fu"
  unfolding timed_def by (elim conjE) (auto 0 3)

lemma timed_cong:
  "timed tr fid fu \<Longrightarrow> start_time fu' = start_time fu \<Longrightarrow> fut_state fu' = fut_state fu \<Longrightarrow>
   timed tr fid fu'"
  by (simp add: timed_def)

lemma timed_le_clock:
  assumes "inv_time s" and "fid < length (futures s)"
  shows "start_time (futures s ! fid) \<le> clock s"
proof -
  have "time_of (Submitted fid) (trace s) = Some (start_time (futures s ! fid))"
    using assms by (simp add: inv_time_def timed_def)
  from time_of_Some_in [OF this] assms(1) show ?thesis by (auto simp: inv_time_def)
qed

lemma inv_time_step:
  assumes "inv_trace s" and "inv_time s" and "step a s = Some s'"
  shows "inv_time s'"
proof -
  have clk: "\<And>t e. (t, e) \<in> set (trace s) \<Longrightarrow> t \<le> clock s"
    and tm: "\<And>fid. fid < length (futures s) \<Longrightarrow> timed (trace s) fid (futures s ! fid)"
    using assms(2) by (auto simp: inv_time_def)
  show ?thesis
    using assms(3)
  proof (cases rule: stepE)
    case Tick
    with clk tm show ?thesis by (fastforce simp: inv_time_def)
  next
    case (Submit pr rest)
    have "time_of (Submitted (length (futures s))) (trace s) = None"
      by (rule time_of_fresh) (use assms(1) in \<open>simp add: inv_trace_def\<close>)
    then have "timed (trace s') (length (futures s))
        \<lparr>fn_arg = pr, start_time = clock s, fut_state = PENDING\<rparr>"
      using Submit by (simp add: timed_def)
    with Submit clk tm show ?thesis
      by (auto simp: inv_time_def nth_append less_Suc_eq intro: timed_append)
  next
    case (Begin fid)
    note p = next_pending_Some [OF Begin(3)]
    have "time_of (Start_invoked fid) (trace s) = None"
      by (rule time_of_fresh) (use assms(1) p in \<open>simp add: inv_trace_def\<close>)
    moreover have "start_time (futures s ! fid) \<le> clock s"
      using timed_le_clock [OF assms(2)] p by simp
    ultimately have "timed (trace s') fid ((futures s ! fid)\<lparr>fut_state := STARTING\<rparr>)"
      using Begin(4) tm [of fid] p by (simp add: timed_def)
    moreover have "timed (trace s') i (futures s ! i)" if "i < length (futures s)" for i
      using tm [OF that] Begin(4) by (simp add: timed_append)
    ultimately show ?thesis using Begin(4) clk
      by (auto simp: inv_time_def nth_set_state)
  next
    case (Start_ok fid)
    have "timed (trace s') fid ((futures s ! fid)\<lparr>fut_state := STARTED\<rparr>)"
      using Start_ok tm [of fid] by (auto simp: timed_def)
    moreover have "timed (trace s') i (futures s ! i)" if "i < length (futures s)" for i
      using tm [OF that] Start_ok(5) by (simp add: timed_append)
    ultimately show ?thesis using Start_ok(5) clk
      by (auto simp: inv_time_def nth_set_state)
  next
    case (Start_fail fid e)
    have "timed (trace s') fid ((futures s ! fid)\<lparr>fut_state := FAILED e\<rparr>)"
      using Start_fail tm [of fid] by (auto simp: timed_def)
    moreover have "timed (trace s') i (futures s ! i)" if "i < length (futures s)" for i
      using tm [OF that] Start_fail(5) by (simp add: timed_append)
    ultimately show ?thesis using Start_fail(5) clk
      by (auto simp: inv_time_def nth_set_state)
  next
    case (Wait_ok fid)
    have "time_of (Wait_returned fid) (trace s) = None"
      by (rule time_of_fresh) (use assms(1) Wait_ok(2,3) in \<open>simp add: inv_trace_def\<close>)
    moreover obtain ts where "time_of (Start_invoked fid) (trace s) = Some ts" "ts \<le> clock s"
      using tm [of fid] Wait_ok(2,3) clk time_of_Some_in [of "Start_invoked fid" "trace s"]
      by (auto simp: timed_def)
    ultimately have "timed (trace s') fid ((futures s ! fid)
        \<lparr>fut_state := SUCCEEDED (int (clock s) - int (start_time (futures s ! fid)))\<rparr>)"
      using Wait_ok tm [of fid] by (auto simp: timed_def)
    moreover have "timed (trace s') i (futures s ! i)" if "i < length (futures s)" for i
      using tm [OF that] Wait_ok(5) timed_append [of "trace s" i "futures s ! i"] by simp
    ultimately show ?thesis using Wait_ok(5) clk
      by (auto simp: inv_time_def nth_set_state)
  next
    case (Wait_fail fid e)
    have "timed (trace s') fid ((futures s ! fid)\<lparr>fut_state := FAILED e\<rparr>)"
      using Wait_fail tm [of fid] by (auto simp: timed_def)
    moreover have "timed (trace s') i (futures s ! i)" if "i < length (futures s)" for i
      using tm [OF that] Wait_fail(5) by (simp add: timed_append)
    ultimately show ?thesis using Wait_fail(5) clk
      by (auto simp: inv_time_def nth_set_state)
  next
    case (Enter order)
    with clk tm show ?thesis by (auto simp: inv_time_def intro: timed_append)
  qed (use assms(2) in \<open>auto simp: inv_time_def\<close>)
qed

lemma begun_append [simp]: "begun (xs @ ys) = begun xs @ begun ys"
  by (induction xs rule: begun.induct) auto

lemma completions_append [simp]: "completions (xs @ ys) = completions xs @ completions ys"
  by (induction xs rule: completions.induct) auto

lemma step_future:
  assumes "step a s = Some s'" and "i < length (futures s)"
  shows "i < length (futures s') \<and> fn_arg (futures s' ! i) = fn_arg (futures s ! i) \<and>
         start_time (futures s' ! i) = start_time (futures s ! i) \<and>
         (terminal (fut_state (futures s ! i)) \<longrightarrow>
            fut_state (futures s' ! i) = fut_state (futures s ! i))"
  using assms by (cases rule: stepE) (auto simp: nth_append dest: next_pending_Some)

lemma step_console:
  assumes "step a s = Some s'"
  shows "(console s' = console s \<and> collected s' = collected s \<and>
          begun (events s') = begun (events s))
       \<or> (\<exists>fid. a = Begin \<and> next_pending (futures s) = Some fid \<and>
             console s' = console s @ [Start_line (project_name (fn_arg (futures s ! fid)))] \<and>
             collected s' = collected s \<and> begun (events s') = begun (events s) @ [fid])
       \<or> (\<exists>fid pr l. a = Collect \<and> fid \<in> set (ready s) \<and> main s = Collecting \<and>
             allFutures s fid = Some pr \<and> fid < length (futures s) \<and>
             futures s' = futures s \<and> report pr (fut_state (futures s ! fid)) = Some l \<and>
             console s' = console s @ [l] \<and> collected s' = collected s @ [fid] \<and>
             begun (events s') = begun (events s))
       \<or> (\<exists>msg. console s' = console s @ [Remote_line msg] \<and> collected s' = collected s \<and>
             begun (events s') = begun (events s))"
  using assms by (cases rule: stepE) auto

lemma report_is_summary: "report pr u = Some l \<Longrightarrow> is_summary l \<and> \<not> is_start l \<and> \<not> is_remote l"
  by (cases u) (auto split: if_splits)

lemma inv_console_step:
  assumes "inv_dict s" and "inv_queue s" and "inv_console s" and "step a s = Some s'"
  shows "inv_console s'"
proof -
  let ?st = "\<lambda>s fid. Start_line (project_name (fn_arg (futures s ! fid)))"
  let ?rp = "\<lambda>s fid. report (fn_arg (futures s ! fid)) (fut_state (futures s ! fid))"
  note sf = step_future [OF assms(4)]
  have b: "set (begun (events s)) \<subseteq> {..<length (futures s)}"
    and st: "start_lines (console s) = map (?st s) (begun (events s))"
    and rp: "map Some (summaries (console s)) = map (?rp s) (collected s)"
    using assms(3) by (auto simp: inv_console_def)
  have c: "\<And>i. i \<in> set (collected s) \<Longrightarrow>
      i < length (futures s) \<and> terminal (fut_state (futures s ! i))"
    using assms(2) by (auto simp: inv_queue_def set_finished_ids)
  have st': "map (?st s') (begun (events s)) = map (?st s) (begun (events s))"
    using b sf by (auto simp: subset_iff)
  have rp': "map (?rp s') (collected s) = map (?rp s) (collected s)"
    using c sf by auto
  have len: "length (futures s) \<le> length (futures s')"
    using sf by (metis linorder_not_less nat_less_le)
  from step_console [OF assms(4)] show ?thesis
  proof (elim disjE exE conjE)
    assume "console s' = console s" "collected s' = collected s"
      "begun (events s') = begun (events s)"
    with b st rp st' rp' len show ?thesis by (auto simp: inv_console_def)
  next
    fix fid
    assume *: "next_pending (futures s) = Some fid"
      "console s' = console s @ [?st s fid]" "collected s' = collected s"
      "begun (events s') = begun (events s) @ [fid]"
    from next_pending_Some [OF *(1)] have "fid < length (futures s)" by simp
    with sf have "?st s' fid = ?st s fid" "fid < length (futures s')" by auto
    with * b st rp st' rp' len show ?thesis
      by (auto simp: inv_console_def start_lines_def summaries_def)
  next
    fix fid pr l
    assume *: "fid \<in> set (ready s)" "allFutures s fid = Some pr" "fid < length (futures s)"
      "futures s' = futures s" "report pr (fut_state (futures s ! fid)) = Some l"
      "console s' = console s @ [l]" "collected s' = collected s @ [fid]"
      "begun (events s') = begun (events s)"
    have "pr = fn_arg (futures s ! fid)"
      using assms(1) *(2,3) by (auto simp: inv_dict_def)
    moreover note report_is_summary [OF *(5)]
    ultimately show ?thesis using * b st rp
      by (auto simp: inv_console_def start_lines_def summaries_def)
  next
    fix msg
    assume "console s' = console s @ [Remote_line msg]" "collected s' = collected s"
      "begun (events s') = begun (events s)"
    with b st rp st' rp' len show ?thesis
      by (auto simp: inv_console_def start_lines_def summaries_def)
  qed
qed

lemma before_loop_append_in:
  "Loop_entered \<in> set es \<Longrightarrow> before_loop (es @ es') = before_loop es"
  by (simp add: before_loop_def takeWhile_append1)

lemma after_loop_append_in:
  "Loop_entered \<in> set es \<Longrightarrow> after_loop (es @ es') = after_loop es @ es'"
  by (simp add: after_loop_def dropWhile_append1)

lemma before_loop_snoc_notin:
  "Loop_entered \<notin> set es \<Longrightarrow> before_loop (es @ [Loop_entered]) = es"
  unfolding before_loop_def by (induction es) auto

lemma after_loop_snoc_notin:
  "Loop_entered \<notin> set es \<Longrightarrow> after_loop (es @ [Loop_entered]) = [Loop_entered]"
  unfolding after_loop_def by (induction es) auto

lemma count_completions: "count_list (completions es) fid = count_list es (Completed fid)"
  by (induction es rule: completions.induct) auto

lemma distinct_count_le_1: "(\<And>x. count_list xs x \<le> 1) \<Longrightarrow> distinct xs"
proof (induction xs)
  case Nil
  then show ?case by simp
next
  case (Cons a xs)
  from Cons.prems [of a] have "a \<notin> set xs" by (simp add: count_list_0_iff)
  moreover have "count_list xs x \<le> 1" for x
    using Cons.prems [of x] by (simp split: if_splits)
  ultimately show ?case using Cons.IH by simp
qed

lemma completions_finished:
  assumes "inv_trace s"
  shows "distinct (completions (events s))"
    and "set (completions (events s)) = set (finished_ids s)"
proof -
  have c: "count_list (completions (events s)) fid =
      (if fid < length (futures s) \<and> terminal (fut_state (futures s ! fid)) then 1 else 0)"
    for fid
    using assms by (simp add: count_completions inv_trace_def)
  show "distinct (completions (events s))"
    by (rule distinct_count_le_1) (simp add: c)
  show "set (completions (events s)) = set (finished_ids s)"
  proof (rule set_eqI)
    fix fid
    have "fid \<in> set (completions (events s)) \<longleftrightarrow> count_list (completions (events s)) fid \<noteq> 0"
      by (simp add: count_list_0_iff)
    then show "fid \<in> set (completions (events s)) \<longleftrightarrow> fid \<in> set (finished_ids s)"
      by (simp add: c set_finished_ids)
  qed
qed

lemma order_keep:
  assumes "inv_order s" and "events s' = events s @ es" and "Loop_entered \<notin> set es"
    and "completions es = []" and "yield_order s' = yield_order s"
    and "main s' = main s \<or> (main s = Collecting \<and> main s' = Done None) \<or>
         (\<exists>rest rest'. main s = Submitting rest \<and> main s' = Submitting rest') \<or>
         (\<exists>e. main s' = Unwinding e) \<or> (\<exists>e. main s' = Done (Some e))"
  shows "inv_order s'"
proof -
  have 1: "\<forall>rest. main s' = Submitting rest \<longrightarrow> Loop_entered \<notin> set (events s')"
    using assms(1,2,3,6) by (auto simp: inv_order_def)
  have 2: ?thesis if m: "main s' = Collecting \<or> main s' = Done None"
  proof -
    from m assms(6) have "main s = Collecting \<or> main s = Done None" by auto
    with assms(1) have in_es: "Loop_entered \<in> set (events s)"
      and rest: "early s \<le> length (yield_order s)"
        "set (take (early s) (yield_order s)) = set (completions (before_loop (events s)))"
        "drop (early s) (yield_order s) = completions (after_loop (events s))"
      by (auto simp: inv_order_def)
    have "early s' = early s"
      using in_es assms(2) by (simp add: early_def before_loop_append_in)
    with in_es rest assms(2,4,5) 1 show ?thesis
      by (simp add: inv_order_def before_loop_append_in after_loop_append_in)
  qed
  show ?thesis using 1 2 by (auto simp: inv_order_def)
qed

lemma order_finish:
  assumes "inv_order s" and "events s' = events s @ es" and "Loop_entered \<notin> set es"
    and "completions es = [fid]" and "main s' = main s"
    and "yield_order s' = (if main s = Collecting then yield_order s @ [fid] else yield_order s)"
    and "main s \<noteq> Done None"
  shows "inv_order s'"
proof (cases "main s = Collecting")
  case True
  with assms(1) have in_es: "Loop_entered \<in> set (events s)"
    and rest: "early s \<le> length (yield_order s)"
      "set (take (early s) (yield_order s)) = set (completions (before_loop (events s)))"
      "drop (early s) (yield_order s) = completions (after_loop (events s))"
    by (auto simp: inv_order_def)
  have "early s' = early s"
    using in_es assms(2) by (simp add: early_def before_loop_append_in)
  moreover have "yield_order s' = yield_order s @ [fid]"
    using True assms(6) by simp
  ultimately show ?thesis
    using in_es rest assms(2,4,5) True
    by (simp add: inv_order_def before_loop_append_in after_loop_append_in)
next
  case False
  with assms show ?thesis by (auto simp: inv_order_def)
qed

lemma order_enter:
  assumes "inv_order s" and "inv_trace s" and "inv_queue s" and "main s = Submitting []"
    and "distinct order" and "set order = set (finished_ids s)"
    and "events s' = events s @ [Loop_entered]" and "main s' = Collecting"
    and "yield_order s' = order"
  shows "inv_order s'"
proof -
  have notin: "Loop_entered \<notin> set (events s)"
    using assms(1,4) by (simp add: inv_order_def)
  have "early s' = length (completions (events s))"
    using notin assms(7) by (simp add: early_def before_loop_snoc_notin)
  also have "\<dots> = card (set (finished_ids s))"
    using completions_finished [OF assms(2)] by (metis distinct_card)
  also have "\<dots> = length order"
    using assms(5,6) by (metis distinct_card)
  finally have e: "early s' = length order" .
  show ?thesis
    using e notin assms(6,7,8,9) completions_finished(2) [OF assms(2)]
    by (simp add: inv_order_def before_loop_snoc_notin after_loop_snoc_notin)
qed

lemma inv_order_step:
  assumes "inv_trace s" and "inv_queue s" and "inv_order s" and "step a s = Some s'"
  shows "inv_order s'"
  using assms(4)
proof (cases rule: stepE)
  case Tick
  then show ?thesis
    by (intro order_keep [OF assms(3), where es = "[]"]) (simp_all add: yield_order_def)
next
  case (Submit pr rest)
  then show ?thesis
    by (intro order_keep [OF assms(3), where es = "[Submitted (length (futures s))]"])
       (simp_all add: yield_order_def)
next
  case (Begin fid)
  then show ?thesis
    by (intro order_keep [OF assms(3), where es = "[Start_invoked fid]"])
       (simp_all add: yield_order_def)
next
  case (Start_ok fid)
  then show ?thesis
    by (intro order_keep [OF assms(3), where es = "[Wait_invoked fid]"])
       (simp_all add: yield_order_def)
next
  case (Start_fail fid e)
  have "main s \<noteq> Done None"
    using assms(2) Start_fail(2,3) by (auto simp: inv_queue_def all_terminal_iff)
  with Start_fail show ?thesis
    by (intro order_finish [OF assms(3), where es = "[Completed fid]" and fid = fid])
       (simp_all add: yield_order_def)
next
  case (Wait_ok fid)
  have "main s \<noteq> Done None"
    using assms(2) Wait_ok(2,3) by (auto simp: inv_queue_def all_terminal_iff)
  with Wait_ok show ?thesis
    by (intro order_finish [OF assms(3), where es = "[Wait_returned fid, Completed fid]"
          and fid = fid])
       (simp_all add: yield_order_def)
next
  case (Wait_fail fid e)
  have "main s \<noteq> Done None"
    using assms(2) Wait_fail(2,3) by (auto simp: inv_queue_def all_terminal_iff)
  with Wait_fail show ?thesis
    by (intro order_finish [OF assms(3), where es = "[Completed fid]" and fid = fid])
       (simp_all add: yield_order_def)
next
  case (Enter order)
  moreover have "collected s = []"
    using assms(2) Enter(2) by (simp add: inv_queue_def)
  ultimately show ?thesis
    by (intro order_enter [OF assms(3,1,2), where order = order])
       (simp_all add: yield_order_def)
next
  case (Collect_key fid rest)
  then show ?thesis
    by (intro order_keep [OF assms(3), where es = "[]"]) (simp_all add: yield_order_def)
next
  case (Collect_ok fid rest pr d)
  then show ?thesis
    by (intro order_keep [OF assms(3), where es = "[]"]) (simp_all add: yield_order_def)
next
  case (Collect_exc fid rest pr e)
  then show ?thesis
    by (intro order_keep [OF assms(3), where es = "[]"]) (simp_all add: yield_order_def)
next
  case (Raise e)
  then show ?thesis
    by (intro order_keep [OF assms(3), where es = "[]"]) (simp_all add: yield_order_def)
next
  case Exit_ok
  then show ?thesis
    by (intro order_keep [OF assms(3), where es = "[]"]) (simp_all add: yield_order_def)
next
  case (Exit_exn e)
  then show ?thesis
    by (intro order_keep [OF assms(3), where es = "[]"]) (simp_all add: yield_order_def)
next
  case (Collect_escape fid rest pr e)
  then show ?thesis
    by (intro order_keep [OF assms(3), where es = "[]"]) (simp_all add: yield_order_def)
next
  case (Interrupt e e0)
  then show ?thesis
    by (intro order_keep [OF assms(3), where es = "[]"]) (simp_all add: yield_order_def)
next
  case (Remote fid msg)
  then show ?thesis
    by (intro order_keep [OF assms(3), where es = "[]"]) (simp_all add: yield_order_def)
qed

lemma invs_dispatch: "invs jobs (dispatch W jobs)"
  by (simp add: invs_def dispatch_def inv_jobs_def inv_dict_def inv_queue_def inv_outcome_def
      inv_busy_def inv_trace_def inv_before_def inv_time_def inv_console_def inv_order_def
      finished_ids_def all_terminal_def busy_def events_def start_lines_def summaries_def)

lemma invs_step: "invs jobs s \<Longrightarrow> step a s = Some s' \<Longrightarrow> invs jobs s'"
  unfolding invs_def
  by (intro conjI; elim conjE)
     (erule (1) inv_jobs_step inv_dict_step inv_queue_step inv_outcome_step inv_busy_step
        inv_trace_step inv_before_step inv_time_step inv_console_step inv_order_step; assumption?)+

lemma run_invs: "run acts s0 = Some s \<Longrightarrow> invs jobs s0 \<Longrightarrow> invs jobs s"
  by (rule run_invariant [where P = "invs jobs"]) (auto intro: invs_step)

lemma reachable_invs: "run acts (dispatch W jobs) = Some s \<Longrightarrow> invs jobs s"
  by (rule run_invs [OF _ invs_dispatch])

lemma reachable_max_workers: "run acts (dispatch W jobs) = Some s \<Longrightarrow> max_workers s = W"
  using run_max_workers [of acts "dispatch W jobs" s] by (simp add: dispatch_def)

lemma work_update:
  "i < length fs \<Longrightarrow>
   work (set_state i u fs) + unit_todo (fut_state (fs ! i)) = work fs + unit_todo u"
proof (induction fs arbitrary: i)
  case Nil
  then show ?case by simp
next
  case (Cons fu fs)
  show ?case
  proof (cases i)
    case 0
    then show ?thesis by (simp add: work_def set_state_def)
  next
    case (Suc j)
    with Cons.prems have "j < length fs" by simp
    from Cons.IH [OF this] Suc show ?thesis by (simp add: work_def set_state_def)
  qed
qed

lemma work_append [simp]: "work (fs @ gs) = work fs + work gs"
  by (simp add: work_def)

lemma collected_bound:
  assumes "inv_queue s"
  shows "length (collected s) + length (ready s) \<le> length (futures s)"
proof -
  have "distinct (collected s @ ready s)"
    and "set (collected s @ ready s) \<subseteq> {..<length (futures s)}"
    using assms by (auto simp: inv_queue_def set_finished_ids)
  then have "card (set (collected s @ ready s)) \<le> card {..<length (futures s)}"
    by (intro card_mono) auto
  with \<open>distinct (collected s @ ready s)\<close> show ?thesis
    by (simp add: distinct_card del: set_append)
qed

text \<open>A unit that is not finished can take a step, whatever the main thread does.\<close>

lemma unit_progress:
  assumes "\<not> all_terminal s" and "1 \<le> max_workers s"
  shows "\<exists>a s'. step a s = Some s' \<and> \<not> is_Raise a \<and> main s' = main s \<and> todo s' < todo s"
proof -
  from assms(1) obtain i where i: "i < length (futures s)"
    "\<not> terminal (fut_state (futures s ! i))"
    by (auto simp: all_terminal_iff)
  consider (starting) j where "j < length (futures s)" "fut_state (futures s ! j) = STARTING"
    | (started) j where "j < length (futures s)" "fut_state (futures s ! j) = STARTED"
    | (idle) "\<forall>j<length (futures s). \<not> on_worker (fut_state (futures s ! j))"
    by (metis on_worker.elims(2))
  then show ?thesis
  proof cases
    case (starting j)
    show ?thesis
    proof (cases "analyze_and_model (fn_arg (futures s ! j))")
      case None
      with starting work_update [OF starting(1), of STARTED]
      have "step (Start_returns j) s = Some (s\<lparr>futures := set_state j STARTED (futures s),
              trace := trace s @ [(clock s, Wait_invoked j)]\<rparr>)"
        and "todo (s\<lparr>futures := set_state j STARTED (futures s),
              trace := trace s @ [(clock s, Wait_invoked j)]\<rparr>) < todo s"
        by (simp_all add: todo_def)
      then show ?thesis by (intro exI [of _ "Start_returns j"] exI conjI) simp_all
    next
      case (Some e)
      with starting work_update [OF starting(1), of "FAILED e"]
      have "step (Start_returns j) s = Some (finish j (FAILED e) s)"
        and "todo (finish j (FAILED e) s) < todo s"
        by (simp_all add: todo_def)
      then show ?thesis by (intro exI [of _ "Start_returns j"] exI conjI) simp_all
    qed
  next
    case (started j)
    show ?thesis
    proof (cases "wait_for_autopilot (fn_arg (futures s ! j))")
      case None
      let ?s' = "finish j (SUCCEEDED (int (clock s) - int (start_time (futures s ! j))))
                   (s\<lparr>trace := trace s @ [(clock s, Wait_returned j)]\<rparr>)"
      from None started
        work_update [OF started(1), of "SUCCEEDED (int (clock s) - int (start_time (futures s ! j)))"]
      have "step (Wait_returns j) s = Some ?s'" and "todo ?s' < todo s"
        by (simp_all add: todo_def)
      then show ?thesis by (intro exI [of _ "Wait_returns j"] exI conjI) simp_all
    next
      case (Some e)
      with started work_update [OF started(1), of "FAILED e"]
      have "step (Wait_returns j) s = Some (finish j (FAILED e) s)"
        and "todo (finish j (FAILED e) s) < todo s"
        by (simp_all add: todo_def)
      then show ?thesis by (intro exI [of _ "Wait_returns j"] exI conjI) simp_all
    qed
  next
    case idle
    then have "filter (\<lambda>fu. on_worker (fut_state fu)) (futures s) = []"
      by (auto simp: filter_empty_conv in_set_conv_nth)
    then have b: "busy s = 0" by (simp add: busy_def)
    from idle i have "fut_state (futures s ! i) = PENDING"
      by (cases "fut_state (futures s ! i)") auto
    with i(1) have "\<exists>j. next_pending (futures s) = Some j"
      by (cases "next_pending (futures s)") (auto simp: next_pending_def find_None_iff)
    then obtain j where j: "next_pending (futures s) = Some j" ..
    note p = next_pending_Some [OF j]
    let ?s' = "s\<lparr>futures := set_state j STARTING (futures s),
                 console := console s @ [Start_line (project_name (fn_arg (futures s ! j)))],
                 trace := trace s @ [(clock s, Start_invoked j)]\<rparr>"
    from j b assms(2) p work_update [of j "futures s" STARTING]
    have "step Begin s = Some ?s'" and "todo ?s' < todo s"
      by (simp_all add: todo_def)
    then show ?thesis by (intro exI [of _ Begin] exI conjI) simp_all
  qed
qed

text \<open>Every step that is not idle brings the end nearer.\<close>

lemma step_todo:
  assumes "inv_queue s" and "step a s = Some s'" and "\<not> idle a"
  shows "todo s' < todo s"
  using assms(2)
proof (cases rule: stepE)
  case Tick
  with assms(3) show ?thesis by simp
next
  case (Submit pr rest)
  then show ?thesis by (simp add: todo_def work_def)
next
  case (Begin fid)
  note p = next_pending_Some [OF Begin(3)]
  from work_update [of fid "futures s" STARTING] p Begin(4) show ?thesis
    by (simp add: todo_def)
next
  case (Start_ok fid)
  from work_update [OF Start_ok(2), of STARTED] Start_ok(3,5) show ?thesis
    by (simp add: todo_def)
next
  case (Start_fail fid e)
  from work_update [OF Start_fail(2), of "FAILED e"] Start_fail(3,5) show ?thesis
    by (simp add: todo_def)
next
  case (Wait_ok fid)
  from work_update [OF Wait_ok(2),
      of "SUCCEEDED (int (clock s) - int (start_time (futures s ! fid)))"] Wait_ok(3,5)
  show ?thesis by (simp add: todo_def)
next
  case (Wait_fail fid e)
  from work_update [OF Wait_fail(2), of "FAILED e"] Wait_fail(3,5) show ?thesis
    by (simp add: todo_def)
next
  case (Enter order)
  then show ?thesis by (simp add: todo_def)
next
  case (Collect_key fid rest)
  then show ?thesis by (simp add: todo_def)
next
  case (Collect_ok fid rest pr d)
  with collected_bound [OF assms(1)] show ?thesis by (simp add: todo_def)
next
  case (Collect_exc fid rest pr e)
  with collected_bound [OF assms(1)] show ?thesis by (simp add: todo_def)
next
  case (Raise e)
  then show ?thesis by (auto simp: todo_def)
next
  case Exit_ok
  then show ?thesis by (simp add: todo_def)
next
  case (Exit_exn e)
  then show ?thesis by (simp add: todo_def)
next
  case (Collect_escape fid rest pr e)
  then show ?thesis by (simp add: todo_def)
next
  case (Interrupt e e0)
  then show ?thesis by (simp add: todo_def)
next
  case (Remote fid msg)
  with assms(3) show ?thesis by simp
qed

lemma step_idle_todo: "step a s = Some s' \<Longrightarrow> idle a \<Longrightarrow> todo s' = todo s"
  by (cases a) (auto simp: todo_def split: if_splits)


text \<open>
  While the main thread has not left the \<open>with\<close> statement, or a unit is not finished,
  some step is enabled that is neither idle nor an exception from outside.
\<close>

lemma progress:
  assumes "inv_dict s" and "inv_queue s" and "1 \<le> max_workers s"
    and "(\<forall>r. main s \<noteq> Done r) \<or> \<not> all_terminal s"
  shows "\<exists>a s'. step a s = Some s' \<and> \<not> idle a \<and> \<not> is_Raise a \<and> \<not> is_Interrupt_join a"
proof (cases "all_terminal s")
  case False
  from unit_progress [OF False assms(3)] obtain a s' where
    *: "step a s = Some s'" "\<not> is_Raise a" "todo s' < todo s" "main s' = main s"
    by blast
  have "\<not> idle a" using step_idle_todo [OF *(1)] *(3) by auto
  moreover have "\<not> is_Interrupt_join a"
  proof
    assume "is_Interrupt_join a"
    then obtain e where "a = Interrupt_join e" by (cases a) auto
    with *(1,4) show False by (auto split: main_state.splits)
  qed
  ultimately show ?thesis using * by blast
next
  case True
  with assms(4) have nd: "\<forall>r. main s \<noteq> Done r" by simp
  show ?thesis
  proof (cases "main s")
    case (Submitting rest)
    show ?thesis
    proof (cases rest)
      case Nil
      have "distinct (finished_ids s)" by (simp add: finished_ids_def)
      with Submitting Nil have "step (As_completed (finished_ids s)) s \<noteq> None" by simp
      then show ?thesis by (intro exI [of _ "As_completed (finished_ids s)"]) auto
    next
      case (Cons pr rest')
      with Submitting have "step Submit s \<noteq> None" by simp
      then show ?thesis by (intro exI [of _ Submit]) auto
    qed
  next
    case Collecting
    show ?thesis
    proof (cases "ready s")
      case (Cons fid rest)
      have "fid \<in> set (finished_ids s)"
        using assms(2) Cons by (auto simp: inv_queue_def)
      then have fid: "fid < length (futures s)" "terminal (fut_state (futures s ! fid))"
        by (simp_all add: set_finished_ids)
      with assms(1) have d: "allFutures s fid = Some (fn_arg (futures s ! fid))"
        by (simp add: inv_dict_def)
      from fid(2) have "step Collect s \<noteq> None"
        using Collecting Cons d fid(1) by (cases "fut_state (futures s ! fid)") auto
      then show ?thesis by (intro exI [of _ Collect]) auto
    next
      case Nil
      from True have "set (finished_ids s) = {..<length (futures s)}"
        by (auto simp: set_finished_ids all_terminal_iff)
      with assms(2) Collecting Nil have "set (collected s) = {..<length (futures s)}"
        and "distinct (collected s)"
        by (auto simp: inv_queue_def)
      then have "length (collected s) = length (futures s)"
        by (metis card_lessThan distinct_card)
      with True Collecting have "step Exit_with s \<noteq> None" by simp
      then show ?thesis by (intro exI [of _ Exit_with]) auto
    qed
  next
    case (Unwinding e)
    with True have "step Exit_with s \<noteq> None" by simp
    then show ?thesis by (intro exI [of _ Exit_with]) auto
  next
    case (Done r)
    with nd show ?thesis by simp
  qed
qed

text \<open>
  So from every state a dispatch reaches it can run, without a further exception from
  outside, to a state in which the \<open>with\<close> statement is left and every unit is finished.
\<close>

lemma completes:
  assumes "invs jobs s" and "1 \<le> max_workers s"
  shows "\<exists>acts s'. run acts s = Some s' \<and> (\<exists>r. main s' = Done r) \<and> all_terminal s' \<and>
           list_all (\<lambda>a. \<not> is_Raise a \<and> \<not> is_Interrupt_join a) acts"
  using assms
proof (induction "todo s" arbitrary: s rule: less_induct)
  case less
  show ?case
  proof (cases "(\<exists>r. main s = Done r) \<and> all_terminal s")
    case True
    then have "run [] s = Some s \<and> (\<exists>r. main s = Done r) \<and> all_terminal s" by simp
    then show ?thesis by (intro exI [of _ "[]"] exI [of _ s]) simp
  next
    case False
    from less.prems(1) have dq: "inv_dict s" "inv_queue s" by (simp_all add: invs_def)
    from False have "(\<forall>r. main s \<noteq> Done r) \<or> \<not> all_terminal s" by blast
    from progress [OF dq less.prems(2) this]
    obtain a s1 where a: "step a s = Some s1" "\<not> idle a" "\<not> is_Raise a"
      "\<not> is_Interrupt_join a"
      by blast
    have lt: "todo s1 < todo s" by (rule step_todo [OF dq(2) a(1,2)])
    have "invs jobs s1" using invs_step [OF less.prems(1) a(1)] .
    moreover have "1 \<le> max_workers s1" using step_max_workers [OF a(1)] less.prems(2) by simp
    ultimately obtain acts s' where r: "run acts s1 = Some s'" "\<exists>r. main s' = Done r"
      "all_terminal s'" "list_all (\<lambda>a. \<not> is_Raise a \<and> \<not> is_Interrupt_join a) acts"
      using less.hyps [OF lt] by blast
    from a r show ?thesis by (intro exI [of _ "a # acts"] exI [of _ s']) simp
  qed
qed

lemma fn_arg_jobs:
  assumes "inv_jobs jobs s" and "fid < length (futures s)"
  shows "fid < length jobs \<and> fn_arg (futures s ! fid) = jobs ! fid"
proof -
  have t: "take (length (futures s)) jobs = map fn_arg (futures s)"
    using assms(1) by (simp add: inv_jobs_def)
  then have "length (futures s) \<le> length jobs"
    by (metis length_map length_take min.cobounded2 min.commute)
  moreover have "take (length (futures s)) jobs ! fid = jobs ! fid"
    using assms(2) by simp
  ultimately show ?thesis using assms(2) t by simp
qed

lemma done_futures:
  assumes "inv_jobs jobs s" and "main s = Collecting \<or> main s = Done None"
  shows "length (futures s) = length jobs" and "map fn_arg (futures s) = jobs"
proof -
  show l: "length (futures s) = length jobs"
    using assms by (auto simp: inv_jobs_def)
  have "take (length (futures s)) jobs = map fn_arg (futures s)"
    using assms(1) by (simp add: inv_jobs_def)
  with l show "map fn_arg (futures s) = jobs" by simp
qed

lemma done_collected:
  assumes "invs jobs s" and "main s = Done None"
  shows "distinct (collected s)" and "set (collected s) = {..<length jobs}"
    and "ready s = []" and "all_terminal s" and "length (collected s) = length jobs"
proof -
  have q: "inv_queue s" and j: "inv_jobs jobs s" using assms(1) by (simp_all add: invs_def)
  have n: "length (futures s) = length jobs" using done_futures(1) [OF j] assms(2) by simp
  show d: "distinct (collected s)" using q by (simp add: inv_queue_def)
  show at: "all_terminal s" using q assms(2) by (simp add: inv_queue_def)
  show l: "length (collected s) = length jobs" using q assms(2) n by (simp add: inv_queue_def)
  from collected_bound [OF q] l n show "ready s = []" by simp
  have "set (collected s) \<subseteq> {..<length jobs}"
    using q n by (auto simp: inv_queue_def set_finished_ids)
  moreover have "card (set (collected s)) = card {..<length jobs}"
    using d l by (simp add: distinct_card)
  ultimately show "set (collected s) = {..<length jobs}"
    by (intro card_subset_eq) auto
qed

lemma reports_jobs:
  assumes "invs jobs s"
  shows "map Some (summaries (console s)) =
         map (\<lambda>fid. report (jobs ! fid) (fut_state (futures s ! fid))) (collected s)"
proof -
  have "inv_console s" "inv_queue s" "inv_jobs jobs s" using assms by (simp_all add: invs_def)
  then have "map Some (summaries (console s)) =
      map (\<lambda>fid. report (fn_arg (futures s ! fid)) (fut_state (futures s ! fid))) (collected s)"
    and "\<And>fid. fid \<in> set (collected s) \<Longrightarrow> fn_arg (futures s ! fid) = jobs ! fid"
    by (auto simp: inv_console_def inv_queue_def set_finished_ids fn_arg_jobs)
  then show ?thesis by simp
qed

lemma collected_line:
  assumes "invs jobs s" and "fid \<in> set (collected s)"
    and "report (jobs ! fid) (fut_state (futures s ! fid)) = Some l"
  shows "l \<in> set (summaries (console s))"
proof -
  have "Some l \<in> set (map (\<lambda>fid. report (jobs ! fid) (fut_state (futures s ! fid))) (collected s))"
    using assms(2,3) by force
  then have "Some l \<in> set (map Some (summaries (console s)))"
    by (simp only: reports_jobs [OF assms(1)])
  then show ?thesis by auto
qed

text \<open>
  The jobs whose calls raise nothing but instances of \<open>Exception\<close>. With such jobs, and
  without an exception from outside, no exception reaches the main thread.
\<close>

lemma ordinary_failed:
  assumes "invs jobs s" and "ordinary jobs" and "fid < length (futures s)"
    and "fut_state (futures s ! fid) = FAILED e"
  shows "is_Exception e"
proof -
  have j: "inv_jobs jobs s" and o: "inv_outcome s" using assms(1) by (simp_all add: invs_def)
  from fn_arg_jobs [OF j assms(3)] have "jobs ! fid \<in> set jobs"
    and "fn_arg (futures s ! fid) = jobs ! fid"
    by simp_all
  moreover have "job_error (fn_arg (futures s ! fid)) = Some e"
    using o assms(3,4) by (auto simp: inv_outcome_def)
  ultimately show ?thesis using assms(2) by (auto simp: ordinary_def)
qed

lemma step_not_exceptional:
  assumes "invs jobs s" and "ordinary jobs" and "step a s = Some s'" and "\<not> is_Raise a"
    and "\<not> exceptional (main s)"
  shows "\<not> exceptional (main s')"
  using assms(3)
proof (cases rule: stepE)
  case (Collect_key fid rest)
  have "inv_queue s" "inv_dict s" using assms(1) by (simp_all add: invs_def)
  then have "fid \<in> set (finished_ids s)" "inv_dict s"
    using Collect_key by (auto simp: inv_queue_def)
  then have "allFutures s fid \<noteq> None"
    by (simp add: set_finished_ids inv_dict_def)
  with Collect_key show ?thesis by simp
next
  case (Collect_escape fid rest pr e)
  from ordinary_failed [OF assms(1,2) Collect_escape(5,6)] Collect_escape(7)
  show ?thesis by simp
qed (use assms(4,5) in auto)

lemma run_not_exceptional:
  assumes "run acts s0 = Some s" and "invs jobs s0" and "ordinary jobs"
    and "\<not> exceptional (main s0)" and "list_all (\<lambda>a. \<not> is_Raise a) acts"
  shows "\<not> exceptional (main s)"
  using assms
proof (induction acts arbitrary: s0)
  case Nil
  then show ?case by simp
next
  case (Cons a acts)
  from Cons.prems(1) obtain s1 where s1: "step a s0 = Some s1" "run acts s1 = Some s"
    by (auto split: option.splits)
  from step_not_exceptional [OF Cons.prems(2,3) s1(1)] Cons.prems(4,5)
  have "\<not> exceptional (main s1)" by simp
  with Cons.IH [OF s1(2) invs_step [OF Cons.prems(2) s1(1)] Cons.prems(3)] Cons.prems(5)
  show ?case by simp
qed

lemma run_append_Some: "run as s = Some s1 \<Longrightarrow> run bs s1 = Some s2 \<Longrightarrow> run (as @ bs) s = Some s2"
  by (simp add: run_append)


lemma run_projectE:
  assumes "map_option f (run acts s0) = Some y"
  obtains s where "run acts s0 = Some s" and "f s = y"
  using assms by (cases "run acts s0") simp_all

lemma done_quiescent:
  assumes "all_terminal s" and "main s = Done r" and "a \<noteq> Tick"
  shows "step a s = None"
proof -
  have t: "\<And>i. i < length (futures s) \<Longrightarrow> terminal (fut_state (futures s ! i))"
    using assms(1) by (simp add: all_terminal_iff)
  show ?thesis
  proof (cases a)
    case Begin
    have "fut_state (futures s ! i) \<noteq> PENDING" if "i < length (futures s)" for i
      using t [OF that] by (cases "fut_state (futures s ! i)") auto
    then have "next_pending (futures s) = None"
      by (auto simp: next_pending_def find_None_iff)
    with Begin show ?thesis by simp
  next
    case (Start_returns fid)
    with t [of fid] show ?thesis by auto
  next
    case (Wait_returns fid)
    with t [of fid] show ?thesis by auto
  next
    case (Remote_print fid msg)
    have "\<not> on_worker (fut_state (futures s ! fid))" if "fid < length (futures s)"
      using t [OF that] by (cases "fut_state (futures s ! fid)") auto
    with Remote_print show ?thesis by auto
  qed (use assms(2,3) in simp_all)
qed

lemma terminal_not_on_worker: "terminal u \<Longrightarrow> \<not> on_worker u"
  by (cases u) auto

lemma all_terminal_busy: "all_terminal s \<Longrightarrow> busy s = 0"
  by (auto simp: all_terminal_def busy_def list_all_iff filter_empty_conv
      dest: terminal_not_on_worker)

lemma events_make [simp]:
  "events \<lparr>max_workers = w, clock = c, main = m, futures = fs, allFutures = d, ready = r,
     collected = k, console = ls, trace = tr\<rparr> = map snd tr"
  unfolding events_def by (simp del: events_fold)

lemma events_Nil: "trace s = [] \<Longrightarrow> events s = []"
  unfolding events_def by (simp del: events_fold)

lemma rejected_stays:
  assumes "run acts s0 = Some s" and "main s0 = Done r" and "futures s0 = []"
    and "console s0 = []" and "trace s0 = []"
  shows "main s = Done r \<and> futures s = [] \<and> console s = [] \<and> trace s = []"
proof (rule run_invariant [OF assms(1),
      where P = "\<lambda>s. main s = Done r \<and> futures s = [] \<and> console s = [] \<and> trace s = []"])
  show "main s0 = Done r \<and> futures s0 = [] \<and> console s0 = [] \<and> trace s0 = []"
    using assms by simp
next
  fix a s s'
  assume "main s = Done r \<and> futures s = [] \<and> console s = [] \<and> trace s = []"
    and "step a s = Some s'"
  then show "main s' = Done r \<and> futures s' = [] \<and> console s' = [] \<and> trace s' = []"
    by (cases a) (auto simp: next_pending_def split: if_splits)
qed







text \<open>Nothing is printed while no unit exists.\<close>

lemma set_state_Nil_iff [simp]: "set_state fid u fs = [] \<longleftrightarrow> fs = []"
  by (simp add: set_state_def)

lemma step_silent:
  assumes "step a s = Some s'" and "futures s' = []"
  shows "futures s = [] \<and> console s' = console s"
  using assms by (cases rule: stepE) (auto dest!: next_pending_Some)

lemma run_silent:
  assumes "run acts s0 = Some s" and "console s0 = []"
  shows "futures s = [] \<longrightarrow> console s = []"
proof (rule run_invariant [OF assms(1), where P = "\<lambda>s. futures s = [] \<longrightarrow> console s = []"])
  show "futures s0 = [] \<longrightarrow> console s0 = []" using assms(2) by simp
next
  fix a s s'
  assume "futures s = [] \<longrightarrow> console s = []" and "step a s = Some s'"
  then show "futures s' = [] \<longrightarrow> console s' = []"
    using step_silent [of a s s'] by auto
qed



text \<open>
  Unless the wait of \<open>__exit__\<close> is interrupted, the \<open>with\<close> statement is left only when
  every unit is finished.
\<close>

lemma step_joined:
  assumes "step a s = Some s'" and "\<not> is_Interrupt_join a"
    and "\<forall>r. main s = Done r \<longrightarrow> all_terminal s"
  shows "\<forall>r. main s' = Done r \<longrightarrow> all_terminal s'"
proof (cases "\<exists>r. main s = Done r")
  case True
  then obtain r where r: "main s = Done r" ..
  with assms(3) have t: "all_terminal s" by simp
  have "a = Tick" using done_quiescent [OF t r, of a] assms(1) by auto
  with assms(1) t show ?thesis by (auto simp: all_terminal_def)
next
  case False
  from assms(1) show ?thesis
  proof (cases rule: stepE)
    case Exit_ok
    then show ?thesis by (simp add: all_terminal_def)
  next
    case (Exit_exn e)
    then show ?thesis by (simp add: all_terminal_def)
  next
    case (Interrupt e e0)
    with assms(2) show ?thesis by simp
  qed (use False in auto)
qed

lemma run_joined:
  assumes "run acts s0 = Some s" and "list_all (\<lambda>a. \<not> is_Interrupt_join a) acts"
    and "\<forall>r. main s0 = Done r \<longrightarrow> all_terminal s0"
  shows "\<forall>r. main s = Done r \<longrightarrow> all_terminal s"
  using assms
proof (induction acts arbitrary: s0)
  case Nil
  then show ?case by simp
next
  case (Cons a acts)
  from Cons.prems(1) obtain s1 where s1: "step a s0 = Some s1" "run acts s1 = Some s"
    by (auto split: option.splits)
  from step_joined [OF s1(1) _ Cons.prems(3)] Cons.prems(2)
  have "\<forall>r. main s1 = Done r \<longrightarrow> all_terminal s1" by simp
  from Cons.IH [OF s1(2) _ this] Cons.prems(2) show ?case by simp
qed


section \<open>The statements of the specification\<close>

subsection \<open>One result per job\<close>




subsection \<open>Failures are captured\<close>




subsection \<open>The bound on concurrency\<close>

text \<open>
  C3: with worker count \<open>W\<close>, at every instant of a dispatch at most \<open>W\<close> jobs are in the
  STARTED state (indeed at most \<open>W\<close> units are on a pool thread, starting or started);
  when \<open>W\<close> units are on a thread no further unit begins, and the number of units on a
  thread only goes down by a unit reaching a terminal state.
\<close>

theorem c3_bounded_concurrency:
  assumes "1 \<le> W" and "run acts (dispatch W jobs) = Some s"
  shows "int (started s) \<le> W \<and> int (busy s) \<le> W \<and>
         (int (busy s) = W \<longrightarrow> step Begin s = None) \<and>
         (\<forall>a s'. step a s = Some s' \<and> busy s' < busy s \<longrightarrow>
            (\<exists>fid. (a = Start_returns fid \<or> a = Wait_returns fid) \<and>
               fid < length (futures s') \<and> terminal (fut_state (futures s' ! fid))))"
proof -
  have mw: "max_workers s = W"
    using run_max_workers [OF assms(2)] by (simp add: dispatch_def)
  have "inv_busy (dispatch W jobs)" by (simp add: inv_busy_def busy_def dispatch_def)
  from run_inv_busy [OF assms(2) this] mw assms(1) have b: "int (busy s) \<le> W"
    by (auto simp: inv_busy_def)
  moreover from b started_le_busy [of s] have "int (started s) \<le> W" by simp
  moreover have "int (busy s) = W \<longrightarrow> step Begin s = None" using mw by simp
  moreover have "\<exists>fid. (a = Start_returns fid \<or> a = Wait_returns fid) \<and>
      fid < length (futures s') \<and> terminal (fut_state (futures s' ! fid))"
    if "step a s = Some s'" "busy s' < busy s" for a s'
    using step_busy [OF that(1)] that(2) by auto
  ultimately show ?thesis by blast
qed

theorem c3_bounded_concurrency_witness:
  "(1::int) \<le> 1 \<and>
   (\<exists>s. run [Submit, Submit, Begin, Start_returns 0]
          (dispatch 1
            [\<lparr>project_name = ''a'', analyze_and_model = None, wait_for_autopilot = None\<rparr>,
             \<lparr>project_name = ''b'', analyze_and_model = None, wait_for_autopilot = None\<rparr>]) = Some s \<and>
        started s = 1 \<and> busy s = 1 \<and> step Begin s = None \<and>
        (\<exists>s'. step (Wait_returns 0) s = Some s' \<and> busy s' < busy s \<and>
           (\<exists>fid. (Wait_returns 0 = Start_returns fid \<or> Wait_returns 0 = Wait_returns fid) \<and>
              fid < length (futures s') \<and> terminal (fut_state (futures s' ! fid)))))"
proof -
  let ?acts = "[Submit, Submit, Begin, Start_returns 0]"
  let ?jobs = "[\<lparr>project_name = ''a'', analyze_and_model = None, wait_for_autopilot = None\<rparr>,
             \<lparr>project_name = ''b'', analyze_and_model = None, wait_for_autopilot = None\<rparr>]"
  have "map_option (\<lambda>s. (started s, busy s, map_option busy (step (Wait_returns 0) s)))
      (run ?acts (dispatch 1 ?jobs)) = Some (1, 1, Some 0)"
    by code_simp
  then obtain s where s: "run ?acts (dispatch 1 ?jobs) = Some s"
    and v: "(started s, busy s, map_option busy (step (Wait_returns 0) s)) = (1, 1, Some 0)"
    by (rule run_projectE)
  from v have st: "started s = 1" and b: "busy s = 1"
    and "map_option busy (step (Wait_returns 0) s) = Some 0"
    by simp_all
  then obtain s' where s': "step (Wait_returns 0) s = Some s'" and b': "busy s' = 0"
    by (cases "step (Wait_returns 0) s") simp_all
  have w: "(1::int) \<le> 1" by simp
  note t = c3_bounded_concurrency [OF w s]
  have g: "step Begin s = None"
    by (rule t [THEN conjunct2, THEN conjunct2, THEN conjunct1, THEN mp]) (simp add: b)
  have lt: "busy s' < busy s" using b b' by simp
  have f: "\<exists>fid. (Wait_returns 0 = Start_returns fid \<or> Wait_returns 0 = Wait_returns fid) \<and>
      fid < length (futures s') \<and> terminal (fut_state (futures s' ! fid))"
    by (rule t [THEN conjunct2, THEN conjunct2, THEN conjunct2, rule_format])
       (rule conjI [OF s' lt])
  have "\<exists>s'. step (Wait_returns 0) s = Some s' \<and> busy s' < busy s \<and>
      (\<exists>fid. (Wait_returns 0 = Start_returns fid \<or> Wait_returns 0 = Wait_returns fid) \<and>
         fid < length (futures s') \<and> terminal (fut_state (futures s' ! fid)))"
    by (intro exI [of _ s'] conjI) (rule s' lt f)+
  with s st b g w show ?thesis by blast
qed

subsection \<open>Leaving the \<open>with\<close> block\<close>

text \<open>
  C4 (as amended): the dispatch is past its \<open>with\<close> statement normally only when every
  submitted unit is in a terminal state and no unit is on a pool thread; from then on
  nothing happens but the passing of time. The same holds when the block is left with an
  exception raised inside it (for instance while the loop iterates over the completions),
  unless the wait of \<open>__exit__\<close> for the pool's threads is itself interrupted by a further
  exception: while some unit is not terminal the statement is left in no other way. For
  \<open>W \<ge> 1\<close> the dispatch can always run to an end at which every unit is terminal.
\<close>

theorem c4_returns_after_all_units:
  assumes "run acts (dispatch W jobs) = Some s"
  shows "(main s = Done None \<longrightarrow>
            all_terminal s \<and> busy s = 0 \<and> (\<forall>a. a \<noteq> Tick \<longrightarrow> step a s = None)) \<and>
         (list_all (\<lambda>a. \<not> is_Interrupt_join a) acts \<longrightarrow>
            (\<forall>r. main s = Done r \<longrightarrow>
               all_terminal s \<and> busy s = 0 \<and> (\<forall>a. a \<noteq> Tick \<longrightarrow> step a s = None))) \<and>
         (\<forall>a s' r. (\<forall>r0. main s \<noteq> Done r0) \<and> step a s = Some s' \<and> main s' = Done r \<and>
              \<not> is_Interrupt_join a \<longrightarrow>
            a = Exit_with \<and> all_terminal s \<and> all_terminal s') \<and>
         (1 \<le> W \<longrightarrow>
            (\<exists>acts' s' r. run acts' s = Some s' \<and> main s' = Done r \<and> all_terminal s' \<and>
               list_all (\<lambda>a. \<not> is_Raise a \<and> \<not> is_Interrupt_join a) acts'))"
proof -
  note i = reachable_invs [OF assms]
  have q: "inv_queue s" using i by (simp add: invs_def)
  have t: "all_terminal s \<and> busy s = 0 \<and> (\<forall>a. a \<noteq> Tick \<longrightarrow> step a s = None)"
    if "all_terminal s" "main s = Done r" for r
    using that all_terminal_busy [OF that(1)] done_quiescent [OF that] by blast
  have 1: "main s = Done None \<longrightarrow>
      all_terminal s \<and> busy s = 0 \<and> (\<forall>a. a \<noteq> Tick \<longrightarrow> step a s = None)"
  proof
    assume m: "main s = Done None"
    then have "all_terminal s" using q by (simp add: inv_queue_def)
    then show "all_terminal s \<and> busy s = 0 \<and> (\<forall>a. a \<noteq> Tick \<longrightarrow> step a s = None)"
      using m by (rule t)
  qed
  have 2: "list_all (\<lambda>a. \<not> is_Interrupt_join a) acts \<longrightarrow>
      (\<forall>r. main s = Done r \<longrightarrow>
         all_terminal s \<and> busy s = 0 \<and> (\<forall>a. a \<noteq> Tick \<longrightarrow> step a s = None))"
  proof (intro impI allI)
    fix r
    assume n: "list_all (\<lambda>a. \<not> is_Interrupt_join a) acts" and m: "main s = Done r"
    have "\<forall>r. main (dispatch W jobs) = Done r \<longrightarrow> all_terminal (dispatch W jobs)"
      by (simp add: dispatch_def all_terminal_def)
    from run_joined [OF assms n this] m have "all_terminal s" by simp
    then show "all_terminal s \<and> busy s = 0 \<and> (\<forall>a. a \<noteq> Tick \<longrightarrow> step a s = None)"
      using m by (rule t)
  qed
  have 3: "\<forall>a s' r. (\<forall>r0. main s \<noteq> Done r0) \<and> step a s = Some s' \<and> main s' = Done r \<and>
        \<not> is_Interrupt_join a \<longrightarrow>
      a = Exit_with \<and> all_terminal s \<and> all_terminal s'"
  proof (intro impI allI; elim conjE)
    fix a s' r
    assume d: "\<forall>r0. main s \<noteq> Done r0" and st: "step a s = Some s'"
      and m: "main s' = Done r" and n: "\<not> is_Interrupt_join a"
    from st d m n show "a = Exit_with \<and> all_terminal s \<and> all_terminal s'"
      by (cases rule: stepE) (auto simp: all_terminal_def)
  qed
  have 4: "1 \<le> W \<longrightarrow>
      (\<exists>acts' s' r. run acts' s = Some s' \<and> main s' = Done r \<and> all_terminal s' \<and>
         list_all (\<lambda>a. \<not> is_Raise a \<and> \<not> is_Interrupt_join a) acts')"
  proof
    assume "1 \<le> W"
    then have "1 \<le> max_workers s" using reachable_max_workers [OF assms] by simp
    from completes [OF i this]
    show "\<exists>acts' s' r. run acts' s = Some s' \<and> main s' = Done r \<and> all_terminal s' \<and>
         list_all (\<lambda>a. \<not> is_Raise a \<and> \<not> is_Interrupt_join a) acts'"
      by blast
  qed
  show ?thesis
    by (intro conjI) (rule 1 2 3 4)+
qed

theorem c4_returns_after_all_units_witness:
  "(\<exists>s. run [Submit, Submit, Begin, Begin, Start_returns 0, Start_returns 1, As_completed [],
             Wait_returns 0, Collect, Raise (BaseExn ''KeyboardInterrupt'' []), Tick,
             Wait_returns 1, Exit_with]
          (dispatch 2
            [\<lparr>project_name = ''a'', analyze_and_model = None, wait_for_autopilot = None\<rparr>,
             \<lparr>project_name = ''b'', analyze_and_model = None, wait_for_autopilot = None\<rparr>])
          = Some s \<and>
        main s = Done (Some (BaseExn ''KeyboardInterrupt'' [])) \<and>
        all_terminal s \<and> busy s = 0 \<and> step Begin s = None \<and> step Collect s = None) \<and>
   (\<exists>s. run [Submit, Submit, Begin, Begin, Start_returns 0, Start_returns 1, As_completed [],
             Wait_returns 0, Collect, Raise (BaseExn ''KeyboardInterrupt'' [])]
          (dispatch 2
            [\<lparr>project_name = ''a'', analyze_and_model = None, wait_for_autopilot = None\<rparr>,
             \<lparr>project_name = ''b'', analyze_and_model = None, wait_for_autopilot = None\<rparr>])
          = Some s \<and>
        \<not> all_terminal s \<and> step Exit_with s = None \<and>
        (\<exists>acts' s' r. run acts' s = Some s' \<and> main s' = Done r \<and> all_terminal s' \<and>
           list_all (\<lambda>a. \<not> is_Raise a \<and> \<not> is_Interrupt_join a) acts'))"
proof -
  let ?pre = "[Submit, Submit, Begin, Begin, Start_returns 0, Start_returns 1, As_completed [],
            Wait_returns 0, Collect, Raise (BaseExn ''KeyboardInterrupt'' [])]"
  let ?acts = "[Submit, Submit, Begin, Begin, Start_returns 0, Start_returns 1, As_completed [],
            Wait_returns 0, Collect, Raise (BaseExn ''KeyboardInterrupt'' []), Tick,
            Wait_returns 1, Exit_with]"
  let ?jobs = "[\<lparr>project_name = ''a'', analyze_and_model = None, wait_for_autopilot = None\<rparr>,
            \<lparr>project_name = ''b'', analyze_and_model = None, wait_for_autopilot = None\<rparr>]"
  have "map_option main (run ?acts (dispatch 2 ?jobs)) =
      Some (Done (Some (BaseExn ''KeyboardInterrupt'' [])))"
    by code_simp
  then obtain s where s: "run ?acts (dispatch 2 ?jobs) = Some s"
    and m: "main s = Done (Some (BaseExn ''KeyboardInterrupt'' []))"
    by (rule run_projectE)
  have n: "list_all (\<lambda>a. \<not> is_Interrupt_join a) ?acts" by simp
  note * = c4_returns_after_all_units [OF s, THEN conjunct2, THEN conjunct1, THEN mp, OF n,
      rule_format, OF m]
  have t: "all_terminal s" and b: "busy s = 0"
    by (rule * [THEN conjunct1], rule * [THEN conjunct2, THEN conjunct1])
  have g: "step Begin s = None" and c: "step Collect s = None"
    by (rule * [THEN conjunct2, THEN conjunct2, rule_format], simp)+
  have 1: "\<exists>s. run ?acts (dispatch 2 ?jobs) = Some s \<and>
      main s = Done (Some (BaseExn ''KeyboardInterrupt'' [])) \<and>
      all_terminal s \<and> busy s = 0 \<and> step Begin s = None \<and> step Collect s = None"
    by (intro conjI exI [of _ s]) (rule s m t b g c)+
  have "map_option all_terminal (run ?pre (dispatch 2 ?jobs)) = Some False"
    by code_simp
  then obtain u where u: "run ?pre (dispatch 2 ?jobs) = Some u" and "all_terminal u = False"
    by (rule run_projectE)
  then have k: "\<not> all_terminal u" by simp
  then have x: "step Exit_with u = None" by simp
  have w: "(1::int) \<le> 2" by simp
  have y: "\<exists>acts' s' r. run acts' u = Some s' \<and> main s' = Done r \<and> all_terminal s' \<and>
      list_all (\<lambda>a. \<not> is_Raise a \<and> \<not> is_Interrupt_join a) acts'"
    by (rule c4_returns_after_all_units [OF u, THEN conjunct2, THEN conjunct2, THEN conjunct2,
      THEN mp, OF w])
  have 2: "\<exists>s. run ?pre (dispatch 2 ?jobs) = Some s \<and>
      \<not> all_terminal s \<and> step Exit_with s = None \<and>
      (\<exists>acts' s' r. run acts' s = Some s' \<and> main s' = Done r \<and> all_terminal s' \<and>
         list_all (\<lambda>a. \<not> is_Raise a \<and> \<not> is_Interrupt_join a) acts')"
    by (intro conjI exI [of _ u]) (rule u k x y)+
  from 1 2 show ?thesis by (rule conjI)
qed

theorem c4_counterexample:
  "map_option (\<lambda>s. (main s, all_terminal s, busy s, map fut_state (futures s)))
     (run [Submit, Begin, Start_returns 0, As_completed [],
           Raise (BaseExn ''KeyboardInterrupt'' []),
           Interrupt_join (BaseExn ''KeyboardInterrupt'' [])]
        (dispatch 5
          [\<lparr>project_name = ''a'', analyze_and_model = None, wait_for_autopilot = None\<rparr>]))
   = Some (Done (Some (BaseExn ''KeyboardInterrupt'' [])), False, 1, [STARTED])"
  by code_simp

subsection \<open>Invalid worker counts and empty job lists\<close>

text \<open>
  C5 (as amended): for a worker count \<open>W \<le> 0\<close> the executor's constructor raises
  \<open>ValueError\<close> at once: the dispatch is over with that exception, and no unit is ever
  submitted, no job's start is invoked and nothing is printed. An empty job list is not
  an error: with \<open>W \<ge> 1\<close> the dispatch of no jobs ends normally.
\<close>

theorem c5_invalid_worker_count:
  "(W \<le> 0 \<longrightarrow>
      (\<forall>acts s. run acts (dispatch W jobs) = Some s \<longrightarrow>
         main s = Done (Some (Exn ''ValueError'' ''max_workers must be greater than 0'')) \<and>
         futures s = [] \<and> console s = [] \<and> events s = [])) \<and>
   (1 \<le> W \<longrightarrow>
      map_option (\<lambda>s. (main s, console s)) (run [As_completed [], Exit_with] (dispatch W []))
        = Some (Done None, []))"
proof -
  have 1: "main s = Done (Some (Exn ''ValueError'' ''max_workers must be greater than 0'')) \<and>
      futures s = [] \<and> console s = [] \<and> events s = []"
    if "W \<le> 0" and r: "run acts (dispatch W jobs) = Some s" for acts s
  proof -
    have "main (dispatch W jobs) =
        Done (Some (Exn ''ValueError'' ''max_workers must be greater than 0''))"
      using that(1) by (simp add: dispatch_def)
    from rejected_stays [OF r this] show ?thesis
      by (simp add: dispatch_def events_Nil)
  qed
  have 2: "map_option (\<lambda>s. (main s, console s))
      (run [As_completed [], Exit_with] (dispatch W [])) = Some (Done None, [])" if "1 \<le> W"
    using that by (simp add: dispatch_def finished_ids_def all_terminal_def)
  from 1 2 show ?thesis by blast
qed

theorem c5_invalid_worker_count_witness:
  "(0::int) \<le> 0 \<and>
   (\<exists>s. run [Tick, Tick]
          (dispatch 0
            [\<lparr>project_name = ''a'', analyze_and_model = None, wait_for_autopilot = None\<rparr>])
          = Some s \<and>
        main s = Done (Some (Exn ''ValueError'' ''max_workers must be greater than 0'')) \<and>
        futures s = [] \<and> console s = [] \<and> events s = []) \<and>
   (1::int) \<le> 5 \<and>
   map_option (\<lambda>s. (main s, console s)) (run [As_completed [], Exit_with] (dispatch 5 []))
     = Some (Done None, [])"
proof -
  let ?jobs = "[\<lparr>project_name = ''a'', analyze_and_model = None, wait_for_autopilot = None\<rparr>]"
  have "map_option clock (run [Tick, Tick] (dispatch 0 ?jobs)) = Some 2"
    by code_simp
  then obtain s where s: "run [Tick, Tick] (dispatch 0 ?jobs) = Some s"
    by (rule run_projectE)
  have z: "(0::int) \<le> 0" and f: "(1::int) \<le> 5" by simp_all
  note a = c5_invalid_worker_count [of 0 ?jobs, THEN conjunct1, rule_format, OF z s]
  note b = c5_invalid_worker_count [of 5 ?jobs, THEN conjunct2, rule_format, OF f]
  show ?thesis
    by (intro conjI exI [of _ s])
       (rule s z f b a [THEN conjunct1] a [THEN conjunct2, THEN conjunct1]
          a [THEN conjunct2, THEN conjunct2, THEN conjunct1]
          a [THEN conjunct2, THEN conjunct2, THEN conjunct2])+
qed

theorem c5_counterexample:
  "map_option (\<lambda>s. (main s, futures s, console s))
     (run [As_completed [], Exit_with] (dispatch 5 [])) = Some (Done None, [], [])"
  by code_simp

subsection \<open>The elapsed time\<close>

text \<open>
  C6 (as amended): for every job that succeeded, the elapsed time its future holds (the
  one the loop prints) is the time at which its \<open>wait_for_autopilot\<close> returned minus the
  time at which the job was submitted to the pool, which is when the main thread read
  the clock. The job's start is invoked no earlier than that, so the elapsed time
  includes the time the unit spent in the queue.
\<close>

theorem c6_elapsed_since_submission:
  assumes "run acts (dispatch W jobs) = Some s" and "fid < length (futures s)"
    and "fut_state (futures s ! fid) = SUCCEEDED d"
  shows "\<exists>t0 ts t1.
           time_of (Submitted fid) (trace s) = Some t0 \<and>
           time_of (Start_invoked fid) (trace s) = Some ts \<and>
           time_of (Wait_returned fid) (trace s) = Some t1 \<and>
           t0 \<le> ts \<and> ts \<le> t1 \<and> d = int t1 - int t0 \<and>
           count_list (events s) (Submitted fid) = 1 \<and>
           count_list (events s) (Start_invoked fid) = 1 \<and>
           count_list (events s) (Wait_returned fid) = 1 \<and>
           (fid \<in> set (collected s) \<longrightarrow>
              Finished_line (project_name (jobs ! fid)) d \<in> set (summaries (console s)))"
proof -
  note i = reachable_invs [OF assms(1)]
  have tm: "timed (trace s) fid (futures s ! fid)" and tr: "inv_trace s"
    using i assms(2) by (simp_all add: invs_def inv_time_def)
  from tm assms(3) obtain ts t1 where
    t: "time_of (Submitted fid) (trace s) = Some (start_time (futures s ! fid))"
      "time_of (Start_invoked fid) (trace s) = Some ts"
      "time_of (Wait_returned fid) (trace s) = Some t1" "ts \<le> t1"
      "start_time (futures s ! fid) \<le> ts" "d = int t1 - int (start_time (futures s ! fid))"
    by (auto simp: timed_def)
  have c: "count_list (events s) (Submitted fid) = 1"
    "count_list (events s) (Start_invoked fid) = 1"
    "count_list (events s) (Wait_returned fid) = 1"
    using tr assms(2,3) by (simp_all add: inv_trace_def)
  have l: "Finished_line (project_name (jobs ! fid)) d \<in> set (summaries (console s))"
    if "fid \<in> set (collected s)"
    by (rule collected_line [OF i that]) (simp add: assms(3))
  from t c l show ?thesis by blast
qed

theorem c6_elapsed_since_submission_witness:
  "\<exists>s. run [Submit, Submit, Begin, Start_returns 0, Tick, Tick, Tick, Wait_returns 0, Begin,
            Start_returns 1, Tick, Tick, Wait_returns 1, As_completed [0, 1], Collect, Collect,
            Exit_with]
         (dispatch 1
           [\<lparr>project_name = ''a'', analyze_and_model = None, wait_for_autopilot = None\<rparr>,
            \<lparr>project_name = ''b'', analyze_and_model = None, wait_for_autopilot = None\<rparr>])
         = Some s \<and>
       fut_state (futures s ! 1) = SUCCEEDED 5 \<and> 1 \<in> set (collected s) \<and>
       (\<exists>t0 ts t1. time_of (Submitted 1) (trace s) = Some t0 \<and>
          time_of (Start_invoked 1) (trace s) = Some ts \<and>
          time_of (Wait_returned 1) (trace s) = Some t1 \<and>
          t0 \<le> ts \<and> ts \<le> t1 \<and> (5::int) = int t1 - int t0 \<and>
          Finished_line ''b'' 5 \<in> set (summaries (console s)))"
proof -
  let ?acts = "[Submit, Submit, Begin, Start_returns 0, Tick, Tick, Tick, Wait_returns 0, Begin,
            Start_returns 1, Tick, Tick, Wait_returns 1, As_completed [0, 1], Collect, Collect,
            Exit_with]"
  let ?jobs = "[\<lparr>project_name = ''a'', analyze_and_model = None, wait_for_autopilot = None\<rparr>,
            \<lparr>project_name = ''b'', analyze_and_model = None, wait_for_autopilot = None\<rparr>]"
  have "map_option (\<lambda>s. (length (futures s), fut_state (futures s ! 1), collected s))
      (run ?acts (dispatch 1 ?jobs)) = Some (2, SUCCEEDED 5, [0, 1])"
    by code_simp
  then obtain s where s: "run ?acts (dispatch 1 ?jobs) = Some s"
    and v: "(length (futures s), fut_state (futures s ! 1), collected s) =
      (2, SUCCEEDED 5, [0, 1])"
    by (rule run_projectE)
  from v have l: "1 < length (futures s)" and f: "fut_state (futures s ! 1) = SUCCEEDED 5"
    and c: "1 \<in> set (collected s)"
    by simp_all
  from c6_elapsed_since_submission [OF s l f] c
  have "\<exists>t0 ts t1. time_of (Submitted 1) (trace s) = Some t0 \<and>
          time_of (Start_invoked 1) (trace s) = Some ts \<and>
          time_of (Wait_returned 1) (trace s) = Some t1 \<and>
          t0 \<le> ts \<and> ts \<le> t1 \<and> (5::int) = int t1 - int t0 \<and>
          Finished_line (project_name (?jobs ! 1)) 5 \<in> set (summaries (console s))"
    by blast
  then have "\<exists>t0 ts t1. time_of (Submitted 1) (trace s) = Some t0 \<and>
          time_of (Start_invoked 1) (trace s) = Some ts \<and>
          time_of (Wait_returned 1) (trace s) = Some t1 \<and>
          t0 \<le> ts \<and> ts \<le> t1 \<and> (5::int) = int t1 - int t0 \<and>
          Finished_line ''b'' 5 \<in> set (summaries (console s))"
    by simp
  with s f c show ?thesis by blast
qed

theorem c6_counterexample:
  "map_option
     (\<lambda>s. (fut_state (futures s ! 1), time_of (Submitted 1) (trace s),
           time_of (Start_invoked 1) (trace s), time_of (Wait_returned 1) (trace s),
           summaries (console s)))
     (run [Submit, Submit, Begin, Start_returns 0, Tick, Tick, Tick, Wait_returns 0, Begin,
           Start_returns 1, Tick, Tick, Wait_returns 1, As_completed [0, 1], Collect, Collect,
           Exit_with]
        (dispatch 1
          [\<lparr>project_name = ''a'', analyze_and_model = None, wait_for_autopilot = None\<rparr>,
           \<lparr>project_name = ''b'', analyze_and_model = None, wait_for_autopilot = None\<rparr>]))
   = Some (SUCCEEDED 5, Some 0, Some 3, Some 5, [Finished_line ''a'' 3, Finished_line ''b'' 5])"
  by code_simp

subsection \<open>The order of collection\<close>

text \<open>
  C7 (as amended): the loop iterates over the futures as \<open>as_completed\<close> yields them, not
  in submission order: the futures that were already finished when the loop was entered
  come first, in any order, and the others follow in the order in which they completed.
  For every such order each line the loop prints is the report of the job the future was
  submitted for, which the loop looks up in the dictionary \<open>allFutures\<close>: the dictionary
  maps every future to its job, and the future's outcome is that job's.
\<close>

theorem c7_results_follow_completion:
  assumes "run acts (dispatch W jobs) = Some s" and "main s = Done None"
  shows "early s \<le> length (collected s) \<and>
         set (take (early s) (collected s)) = set (completions (before_loop (events s))) \<and>
         drop (early s) (collected s) = completions (after_loop (events s)) \<and>
         (\<forall>fid<length jobs.
            allFutures s fid = Some (jobs ! fid) \<and>
            consistent (jobs ! fid) (fut_state (futures s ! fid))) \<and>
         length (summaries (console s)) = length (collected s) \<and>
         (\<forall>i<length (collected s).
            Some (summaries (console s) ! i) =
              report (jobs ! (collected s ! i)) (fut_state (futures s ! (collected s ! i))))"
proof -
  note i = reachable_invs [OF assms(1)]
  have od: "inv_order s" and j: "inv_jobs jobs s" and d: "inv_dict s" and o: "inv_outcome s"
    using i by (simp_all add: invs_def)
  have y: "yield_order s = collected s"
    using done_collected(3) [OF i assms(2)] by (simp add: yield_order_def)
  have 1: "early s \<le> length (collected s) \<and>
      set (take (early s) (collected s)) = set (completions (before_loop (events s))) \<and>
      drop (early s) (collected s) = completions (after_loop (events s))"
    using od assms(2) y by (simp add: inv_order_def)
  have n: "length (futures s) = length jobs" using done_futures(1) [OF j] assms(2) by simp
  have 2: "allFutures s fid = Some (jobs ! fid) \<and>
      consistent (jobs ! fid) (fut_state (futures s ! fid))" if "fid < length jobs" for fid
  proof -
    have f: "fid < length (futures s)" using that n by simp
    with fn_arg_jobs [OF j f] d o show ?thesis by (auto simp: inv_dict_def inv_outcome_def)
  qed
  note r = reports_jobs [OF i]
  have "length (map Some (summaries (console s))) = length (collected s)"
    by (simp only: r length_map)
  then have 3: "length (summaries (console s)) = length (collected s)" by simp
  have 4: "Some (summaries (console s) ! k) =
      report (jobs ! (collected s ! k)) (fut_state (futures s ! (collected s ! k)))"
    if "k < length (collected s)" for k
  proof -
    have "map Some (summaries (console s)) ! k =
        map (\<lambda>fid. report (jobs ! fid) (fut_state (futures s ! fid))) (collected s) ! k"
      by (simp only: r)
    with that 3 show ?thesis by simp
  qed
  from 1 2 3 4 show ?thesis by blast
qed

theorem c7_results_follow_completion_witness:
  "\<exists>s. run [Submit, Submit, Begin, Begin, Start_returns 0, Start_returns 1, Tick,
            Wait_returns 1, As_completed [1], Tick, Wait_returns 0, Collect, Collect, Exit_with]
         (dispatch 2
           [\<lparr>project_name = ''a'', analyze_and_model = None, wait_for_autopilot = None\<rparr>,
            \<lparr>project_name = ''b'', analyze_and_model = None, wait_for_autopilot = None\<rparr>])
         = Some s \<and>
       main s = Done None \<and> collected s = [1, 0] \<and>
       allFutures s 1 = Some \<lparr>project_name = ''b'', analyze_and_model = None,
                               wait_for_autopilot = None\<rparr> \<and>
       drop (early s) (collected s) = completions (after_loop (events s)) \<and>
       summaries (console s) = [Finished_line ''b'' 1, Finished_line ''a'' 2]"
proof -
  let ?acts = "[Submit, Submit, Begin, Begin, Start_returns 0, Start_returns 1, Tick,
            Wait_returns 1, As_completed [1], Tick, Wait_returns 0, Collect, Collect, Exit_with]"
  let ?b = "\<lparr>project_name = ''b'', analyze_and_model = None, wait_for_autopilot = None\<rparr>"
  let ?jobs = "[\<lparr>project_name = ''a'', analyze_and_model = None, wait_for_autopilot = None\<rparr>, ?b]"
  have "map_option (\<lambda>s. (main s, collected s, summaries (console s)))
      (run ?acts (dispatch 2 ?jobs))
      = Some (Done None, [1, 0], [Finished_line ''b'' 1, Finished_line ''a'' 2])"
    by code_simp
  then obtain s where s: "run ?acts (dispatch 2 ?jobs) = Some s"
    and v: "(main s, collected s, summaries (console s)) =
      (Done None, [1, 0], [Finished_line ''b'' 1, Finished_line ''a'' 2])"
    by (rule run_projectE)
  from v have m: "main s = Done None" and c: "collected s = [1, 0]"
    and l: "summaries (console s) = [Finished_line ''b'' 1, Finished_line ''a'' 2]"
    by simp_all
  note t = c7_results_follow_completion [OF s m]
  have o: "1 < length ?jobs" by simp
  have "allFutures s 1 = Some (?jobs ! 1)"
    by (rule t [THEN conjunct2, THEN conjunct2, THEN conjunct2, THEN conjunct1, rule_format,
          OF o, THEN conjunct1])
  then have a: "allFutures s 1 = Some ?b" by simp
  have d: "drop (early s) (collected s) = completions (after_loop (events s))"
    by (rule t [THEN conjunct2, THEN conjunct2, THEN conjunct1])
  show ?thesis
    by (intro conjI exI [of _ s]) (rule s m c a d l)+
qed

theorem c7_counterexample:
  "map_option (\<lambda>s. (main s, completions (events s), collected s, summaries (console s)))
     (run [Submit, Submit, Begin, Begin, Start_returns 0, Start_returns 1, As_completed [1, 0],
           Collect, Collect, Exit_with]
        (dispatch 2
          [\<lparr>project_name = ''a'', analyze_and_model = Some (Exn ''ClientError'' ''no''),
            wait_for_autopilot = None\<rparr>,
           \<lparr>project_name = ''b'', analyze_and_model = Some (Exn ''ClientError'' ''no''),
            wait_for_autopilot = None\<rparr>]))
   = Some (Done None, [0, 1], [1, 0], [Exception_line ''b'' ''no'', Exception_line ''a'' ''no''])"
  by code_simp

subsection \<open>Start and wait, once each\<close>




subsection \<open>What is printed\<close>




subsection \<open>The empty job list\<close>

text \<open>
  C10: with no jobs (and \<open>W \<ge> 1\<close>) the dispatch ends normally: the \<open>with\<close> block is
  entered, the loop is entered and left without an iteration, and the block is left.
  Whatever the schedule, no unit exists, nothing is printed, the loop iterates over no
  future, no start or wait operation is invoked, and unless something else raises inside
  the block no exception occurs.
\<close>

theorem c10_empty_job_list:
  assumes "1 \<le> W"
  shows "map_option (\<lambda>s. (main s, futures s, console s, collected s, events s))
           (run [As_completed [], Exit_with] (dispatch W []))
           = Some (Done None, [], [], [], [Loop_entered]) \<and>
         (\<forall>acts s. run acts (dispatch W []) = Some s \<longrightarrow>
            futures s = [] \<and> console s = [] \<and> collected s = [] \<and>
            (\<forall>fid. Start_invoked fid \<notin> set (events s) \<and> Wait_invoked fid \<notin> set (events s)) \<and>
            (list_all (\<lambda>a. \<not> is_Raise a) acts \<longrightarrow> \<not> exceptional (main s)))"
proof (intro conjI allI impI)
  show "map_option (\<lambda>s. (main s, futures s, console s, collected s, events s))
      (run [As_completed [], Exit_with] (dispatch W [])) = Some (Done None, [], [], [], [Loop_entered])"
    using assms by (simp add: dispatch_def finished_ids_def all_terminal_def)
next
  fix acts s
  assume r: "run acts (dispatch W []) = Some s"
  note i = reachable_invs [OF r]
  have j: "inv_jobs [] s" and q: "inv_queue s" and c: "inv_console s" and t: "inv_trace s"
    using i by (simp_all add: invs_def)
  show f: "futures s = []" using j by (simp add: inv_jobs_def)
  then show k: "collected s = []" using q by (simp add: inv_queue_def set_finished_ids)
  show "console s = []"
    using run_silent [OF r] f by (simp add: dispatch_def)
  show "Start_invoked fid \<notin> set (events s)" for fid
    by (rule count_zero_notin) (use t f in \<open>simp add: inv_trace_def\<close>)
  show "Wait_invoked fid \<notin> set (events s)" for fid
    by (rule count_zero_notin) (use t f in \<open>simp add: inv_trace_def\<close>)
  show "\<not> exceptional (main s)" if "list_all (\<lambda>a. \<not> is_Raise a) acts"
    by (rule run_not_exceptional [OF r invs_dispatch _ _ that])
       (use assms in \<open>simp_all add: dispatch_def ordinary_def\<close>)
qed

theorem c10_empty_job_list_witness:
  "(1::int) \<le> 5 \<and>
   map_option (\<lambda>s. (main s, futures s, console s, collected s, events s))
     (run [As_completed [], Exit_with] (dispatch 5 []))
     = Some (Done None, [], [], [], [Loop_entered]) \<and>
   (\<exists>s. run [Tick, As_completed [], Tick] (dispatch 5 []) = Some s \<and>
        futures s = [] \<and> console s = [] \<and> collected s = [] \<and> \<not> exceptional (main s))"
proof -
  have "map_option clock (run [Tick, As_completed [], Tick] (dispatch 5 [])) = Some 2"
    by code_simp
  then obtain s where s: "run [Tick, As_completed [], Tick] (dispatch 5 []) = Some s"
    by (rule run_projectE)
  have f: "(1::int) \<le> 5" by simp
  have n: "list_all (\<lambda>a. \<not> is_Raise a) [Tick, As_completed [], Tick]" by simp
  note a = c10_empty_job_list [OF f, THEN conjunct1]
  note b = c10_empty_job_list [OF f, THEN conjunct2, rule_format, OF s]
  have x: "\<not> exceptional (main s)"
    by (rule b [THEN conjunct2, THEN conjunct2, THEN conjunct2, THEN conjunct2, rule_format, OF n])
  show ?thesis
    by (intro conjI exI [of _ s])
       (rule s f a x b [THEN conjunct1] b [THEN conjunct2, THEN conjunct1]
          b [THEN conjunct2, THEN conjunct2, THEN conjunct1])+
qed

end
